theory Spec2Isabelle
  imports Main
begin

section \<open>The Logic Mill engine (mill.c)\<close>

text \<open>
  A shallow embedding of \<^verbatim>\<open>src/mill.c\<close>: the symbol table, the instruction parser, the
  tape, the execution loop and the tape printer. The argument handling and the opening
  of files are left out; the three streams reach the functions below as lists of wide
  characters.
\<close>

subsection \<open>Constants and machine types\<close>

text \<open>
  A wide character is its code point. A \<^verbatim>\<open>size_t\<close> is a natural number, and the two
  places where the code lets it wrap (the head update and the backward scan of the
  printer) compute modulo \<open>2 ^ 64\<close> explicitly.
\<close>

type_synonym wchar = nat
type_synonym size_t = nat

definition MILL_TAPE_SIZE :: nat where
  "MILL_TAPE_SIZE = 1048576"

definition MILL_STATES_MAX :: nat where
  "MILL_STATES_MAX = 1024"

definition MILL_STATE_MAX :: nat where
  "MILL_STATE_MAX = 32"

definition MILL_INSTR_MAX :: nat where
  "MILL_INSTR_MAX = 65536"

definition MILL_STEPS_MAX :: nat where
  "MILL_STEPS_MAX = 1000000"

definition SIZE_T_RANGE :: nat where
  "SIZE_T_RANGE = 2 ^ 64"

definition size_t_of_int :: "int \<Rightarrow> size_t" where
  "size_t_of_int i = nat (i mod int SIZE_T_RANGE)"

definition size_t_add :: "size_t \<Rightarrow> size_t \<Rightarrow> size_t" where
  "size_t_add a b = (a + b) mod SIZE_T_RANGE"

definition size_t_sub :: "size_t \<Rightarrow> size_t \<Rightarrow> size_t" where
  "size_t_sub a b = (a + SIZE_T_RANGE - b mod SIZE_T_RANGE) mod SIZE_T_RANGE"

text \<open>The wide characters the code names.\<close>

definition wc_newline :: wchar where
  "wc_newline = 10"

definition wc_slash :: wchar where
  "wc_slash = 47"

definition wc_underscore :: wchar where
  "wc_underscore = 95"

definition wc_L :: wchar where
  "wc_L = 76"

definition wc_R :: wchar where
  "wc_R = 82"

definition wstr :: "string \<Rightarrow> wchar list" where
  "wstr s = map of_char s"

text \<open>
  \<^verbatim>\<open>iswspace\<close> depends on the locale that \<^verbatim>\<open>main\<close> selects, so the parser takes the
  white-space class as a parameter. \<open>iswspace_C\<close> is the class of the C locale.
\<close>

definition iswspace_C :: "wchar \<Rightarrow> bool" where
  "iswspace_C c = (c = 32 \<or> (9 \<le> c \<and> c \<le> 13))"

subsection \<open>Wide C strings\<close>

text \<open>
  A buffer holds a string up to its first NUL: \<open>wcs\<close> is the string a buffer is read as,
  \<open>wcslen\<close> its length, and \<open>wcscmp0 a b\<close> says that \<^verbatim>\<open>wcscmp(a, b) == 0\<close>.
\<close>

definition wcs :: "wchar list \<Rightarrow> wchar list" where
  "wcs s = takeWhile (\<lambda>c. c \<noteq> 0) s"

definition wcslen :: "wchar list \<Rightarrow> nat" where
  "wcslen s = length (wcs s)"

definition wcscmp0 :: "wchar list \<Rightarrow> wchar list \<Rightarrow> bool" where
  "wcscmp0 a b = (wcs a = wcs b)"

text \<open>
  Reading \<^verbatim>\<open>token[i]\<close>: the token buffer holds the characters read so far and a NUL
  after them.
\<close>

definition tok_at :: "wchar list \<Rightarrow> nat \<Rightarrow> wchar" where
  "tok_at token i = (if i < length token then token ! i else 0)"

subsection \<open>Data\<close>

datatype HeadMove = HeadMove_none | HeadMove_left | HeadMove_right

record MillInstr =
  state_in :: size_t
  char_in :: wchar
  state_out :: size_t
  char_out :: wchar
  move :: HeadMove

text \<open>
  The symbol table: \<open>symbols\<close> are the stored names in the order of their ids (the table's
  \<^verbatim>\<open>size\<close> is the length of the list), \<open>datasize\<close> counts the wide characters used in
  \<^verbatim>\<open>symdata\<close>. \<^verbatim>\<open>symdata\<close> is only ever written at offset \<open>datasize\<close>, which only grows,
  so a stored name is never overwritten and the list holds the names themselves.
\<close>

record SymTable =
  symbols :: "wchar list list"
  datasize :: size_t

record MillProgram =
  symtable :: SymTable
  syminit :: size_t
  symhalt :: size_t
  instructions :: "MillInstr list"

text \<open>
  The tape: \<open>buf\<close> is the array, read at indices below \<open>tape_size\<close>; \<open>null_cell\<close> is the
  field \<^verbatim>\<open>_null\<close> that follows the array in the struct.
\<close>

record MillTape =
  tape_size :: size_t
  pos :: size_t
  buf :: "nat \<Rightarrow> wchar"
  null_cell :: wchar

datatype error =
    SymbolTableLimit
  | SymbolsBufferExhausted
  | SymbolTooLong "wchar list"
  | InvalidMove "wchar list"
  | UnexpectedToken "wchar list"
  | ExpectingToken
  | InvalidState nat
  | TooManyInstructions
  | TapeReadError

subsection \<open>parse_headmove\<close>

definition parse_headmove :: "wchar list \<Rightarrow> error + HeadMove" where
  "parse_headmove text =
     (if wcslen text \<noteq> 1 then Inl (InvalidMove (wcs text))
      else if tok_at text 0 = wc_L then Inr HeadMove_left
      else if tok_at text 0 = wc_R then Inr HeadMove_right
      else Inl (InvalidMove (wcs text)))"

subsection \<open>symtable_insert\<close>

text \<open>The lookup loop of \<^verbatim>\<open>symtable_insert\<close>, from index \<open>i\<close>.\<close>

function symtable_find :: "wchar list list \<Rightarrow> wchar list \<Rightarrow> nat \<Rightarrow> nat option" where
  "symtable_find syms symbol i =
     (if i < length syms
      then (if wcscmp0 (syms ! i) symbol then Some i
            else symtable_find syms symbol (i + 1))
      else None)"
  by pat_completeness auto
termination
  by (relation "measure (\<lambda>(syms, symbol, i). length syms - i)") auto

declare symtable_find.simps [simp del]

definition symtable_insert :: "SymTable \<Rightarrow> wchar list \<Rightarrow> error + (SymTable \<times> size_t)" where
  "symtable_insert st symbol =
     (case symtable_find (symbols st) symbol 0 of
        Some i \<Rightarrow> Inr (st, i)
      | None \<Rightarrow>
          if length (symbols st) \<ge> MILL_STATES_MAX then Inl SymbolTableLimit
          else
            let symsize = wcslen symbol + 1;
                symmax = MILL_STATES_MAX * (MILL_STATE_MAX + 1)
            in if datasize st + symsize > symmax then Inl SymbolsBufferExhausted
               else Inr (st\<lparr>symbols := symbols st @ [wcs symbol],
                              datasize := datasize st + symsize\<rparr>,
                         length (symbols st)))"

subsection \<open>mill_parse_instruction\<close>

text \<open>
  One pass of the body of the \<^verbatim>\<open>switch (state)\<close> on the character \<open>c\<close>: either the
  function returns \<open>-1\<close> (\<open>PErr\<close>) or the loop goes on with the new state, token,
  instruction data and symbol table. The token is the list of the \<^verbatim>\<open>toksize\<close> characters
  accumulated so far.
\<close>

datatype parse_step =
    PErr error
  | PCont nat "wchar list" MillInstr SymTable

definition parse_char ::
  "(wchar \<Rightarrow> bool) \<Rightarrow> nat \<Rightarrow> wchar \<Rightarrow> wchar list \<Rightarrow> MillInstr \<Rightarrow> SymTable \<Rightarrow> parse_step" where
  "parse_char sp state c token data st =
    (let tokmax = MILL_STATE_MAX in
     if state = 0 then
       (if \<not> sp c then PCont 1 (token @ [c]) data st else PCont 0 token data st)
     else if state = 1 then
       (if sp c then
          (case symtable_insert st token of
             Inl e \<Rightarrow> PErr e
           | Inr (st', sid) \<Rightarrow> PCont 2 [] (data\<lparr>state_in := sid\<rparr>) st')
        else if length token \<ge> tokmax then PErr (SymbolTooLong (wcs token))
        else
          (let token' = token @ [c] in
           if length token' = 2 \<and> wcscmp0 token' [wc_slash, wc_slash]
           then PCont 20 [] data st
           else PCont 1 token' data st))
     else if state = 2 then
       (if \<not> sp c then PCont 3 (token @ [c]) data st else PCont 2 token data st)
     else if state = 3 then
       (if sp c then
          PCont 4 []
            (data\<lparr>char_in := (if tok_at token 0 = wc_underscore then 0 else tok_at token 0)\<rparr>) st
        else PErr (SymbolTooLong (wcs token)))
     else if state = 4 then
       (if \<not> sp c then PCont 5 (token @ [c]) data st else PCont 4 token data st)
     else if state = 5 then
       (if sp c then
          (case symtable_insert st token of
             Inl e \<Rightarrow> PErr e
           | Inr (st', sid) \<Rightarrow> PCont 6 [] (data\<lparr>state_out := sid\<rparr>) st')
        else if length token \<ge> tokmax then PErr (SymbolTooLong (wcs token))
        else PCont 5 (token @ [c]) data st)
     else if state = 6 then
       (if \<not> sp c then PCont 7 (token @ [c]) data st else PCont 6 token data st)
     else if state = 7 then
       (if sp c then
          PCont 8 []
            (data\<lparr>char_out := (if tok_at token 0 = wc_underscore then 0 else tok_at token 0)\<rparr>) st
        else PErr (SymbolTooLong (wcs token)))
     else if state = 8 then
       (if \<not> sp c then PCont 9 (token @ [c]) data st else PCont 8 token data st)
     else if state = 9 then
       (if sp c then
          (case parse_headmove token of
             Inl e \<Rightarrow> PErr e
           | Inr m \<Rightarrow> PCont (if c = wc_newline then 100 else 10) [] (data\<lparr>move := m\<rparr>) st)
        else if length token \<ge> tokmax then PErr (SymbolTooLong (wcs token))
        else
          (let token' = token @ [c]; toksize = length token' in
           if toksize \<ge> 3 \<and> tok_at token' (toksize - 2) = wc_slash
                \<and> tok_at token' (toksize - 1) = wc_slash
           then
             (let token'' = take (toksize - 2) token' in
              case parse_headmove token'' of
                Inl e \<Rightarrow> PErr e
              | Inr m \<Rightarrow> PCont 12 token'' (data\<lparr>move := m\<rparr>) st)
           else PCont 9 token' data st))
     else if state = 10 then
       (if c = wc_newline then PCont 100 token data st
        else if c = wc_slash then PCont 11 (token @ [c]) data st
        else if \<not> sp c then PErr (UnexpectedToken [c])
        else PCont 10 token data st)
     else if state = 11 then
       (if c = wc_slash then PCont 12 token data st
        else PErr (UnexpectedToken (wcs (token @ [c]))))
     else if state = 12 then
       (if c = wc_newline then PCont 100 token data st else PCont 12 token data st)
     else if state = 20 then
       (if c = wc_newline then PCont 0 token data st else PCont 20 token data st)
     else PErr (InvalidState state))"

text \<open>
  The \<^verbatim>\<open>switch (state)\<close> after the loop. \<open>None\<close> is the return value 0 (end of input, no
  instruction), \<open>Some instr\<close> the return value 1 with \<^verbatim>\<open>*instr\<close> written.
\<close>

definition parse_finish :: "nat \<Rightarrow> wchar list \<Rightarrow> MillInstr \<Rightarrow> error + MillInstr option" where
  "parse_finish state token data =
    (if state = 0 \<or> state = 20 then Inr None
     else if 1 \<le> state \<and> state \<le> 8 then Inl ExpectingToken
     else if state = 9 then
       (case parse_headmove token of
          Inl e \<Rightarrow> Inl e
        | Inr m \<Rightarrow> Inr (Some (data\<lparr>move := m\<rparr>)))
     else if state = 11 then Inl (UnexpectedToken (wcs token))
     else if state = 10 \<or> state = 12 \<or> state = 100 then Inr (Some data)
     else Inl (InvalidState state))"

text \<open>
  The loop \<^verbatim>\<open>for (; state < 100; )\<close>: it reads one character per pass and leaves at the
  end of the input. The result holds the rest of the stream and the symbol table as the
  call leaves them.
\<close>

fun parse_loop ::
  "(wchar \<Rightarrow> bool) \<Rightarrow> wchar list \<Rightarrow> SymTable \<Rightarrow> MillInstr \<Rightarrow> wchar list \<Rightarrow> nat
     \<Rightarrow> error + (wchar list \<times> SymTable \<times> MillInstr option)" where
  "parse_loop sp [] st data token state =
     (case parse_finish state token data of
        Inl e \<Rightarrow> Inl e
      | Inr r \<Rightarrow> Inr ([], st, r))"
| "parse_loop sp (c # cs) st data token state =
     (if state < 100 then
        (case parse_char sp state c token data st of
           PErr e \<Rightarrow> Inl e
         | PCont state' token' data' st' \<Rightarrow> parse_loop sp cs st' data' token' state')
      else
        (case parse_finish state token data of
           Inl e \<Rightarrow> Inl e
         | Inr r \<Rightarrow> Inr (c # cs, st, r)))"

definition MillInstr_zero :: MillInstr where
  "MillInstr_zero =
     \<lparr>state_in = 0, char_in = 0, state_out = 0, char_out = 0, move = HeadMove_none\<rparr>"

definition mill_parse_instruction ::
  "(wchar \<Rightarrow> bool) \<Rightarrow> wchar list \<Rightarrow> SymTable
     \<Rightarrow> error + (wchar list \<times> SymTable \<times> MillInstr option)" where
  "mill_parse_instruction sp inp st = parse_loop sp inp st MillInstr_zero [] 0"

subsection \<open>mill_parse_program\<close>

lemma parse_loop_rest_le:
  "parse_loop sp inp st data token state = Inr (rest, st', r) \<Longrightarrow> length rest \<le> length inp"
proof (induction inp arbitrary: st data token state)
  case Nil
  then show ?case by (auto split: sum.splits)
next
  case (Cons c cs)
  show ?case
  proof (cases "state < 100")
    case True
    with Cons.prems obtain s' t' d' st1 where
      "parse_loop sp cs st1 d' t' s' = Inr (rest, st', r)"
      by (auto split: parse_step.splits)
    from Cons.IH [OF this] show ?thesis by simp
  next
    case False
    with Cons.prems show ?thesis by (auto split: sum.splits)
  qed
qed

lemma mill_parse_instruction_consumes:
  assumes "mill_parse_instruction sp inp st = Inr (rest, st', Some instr)"
  shows "length rest < length inp"
proof (cases inp)
  case Nil
  with assms show ?thesis
    by (simp add: mill_parse_instruction_def parse_finish_def)
next
  case (Cons c cs)
  with assms obtain s' t' d' st1 where
    "parse_loop sp cs st1 d' t' s' = Inr (rest, st', Some instr)"
    by (auto simp: mill_parse_instruction_def split: parse_step.splits)
  from parse_loop_rest_le [OF this] Cons show ?thesis by simp
qed

text \<open>The loop \<^verbatim>\<open>for (;;)\<close> of \<^verbatim>\<open>mill_parse_program\<close>.\<close>

function mill_parse_program_loop ::
  "(wchar \<Rightarrow> bool) \<Rightarrow> wchar list \<Rightarrow> MillProgram \<Rightarrow> error + MillProgram" where
  "mill_parse_program_loop sp inp prog =
     (case mill_parse_instruction sp inp (symtable prog) of
        Inl e \<Rightarrow> Inl e
      | Inr (rest, st', None) \<Rightarrow> Inr (prog\<lparr>symtable := st'\<rparr>)
      | Inr (rest, st', Some instr) \<Rightarrow>
          if length (instructions prog) \<ge> MILL_INSTR_MAX then Inl TooManyInstructions
          else mill_parse_program_loop sp rest
                 (prog\<lparr>symtable := st', instructions := instructions prog @ [instr]\<rparr>))"
  by pat_completeness auto
termination
  by (relation "measure (\<lambda>(sp, inp, prog). length inp)")
     (auto dest: mill_parse_instruction_consumes)

declare mill_parse_program_loop.simps [simp del]

definition SymTable_zero :: SymTable where
  "SymTable_zero = \<lparr>symbols = [], datasize = 0\<rparr>"

definition mill_parse_program :: "(wchar \<Rightarrow> bool) \<Rightarrow> wchar list \<Rightarrow> error + MillProgram" where
  "mill_parse_program sp inp =
     (case symtable_insert SymTable_zero (wstr ''INIT'') of
        Inl e \<Rightarrow> Inl e
      | Inr (st1, i) \<Rightarrow>
          (case symtable_insert st1 (wstr ''HALT'') of
             Inl e \<Rightarrow> Inl e
           | Inr (st2, h) \<Rightarrow>
               mill_parse_program_loop sp inp
                 \<lparr>symtable = st2, syminit = i, symhalt = h, instructions = []\<rparr>))"

subsection \<open>mill_read_tape\<close>

text \<open>
  \<^verbatim>\<open>fgetws(s, n, stream)\<close> stores at most \<open>n - 1\<close> characters, stops after a newline
  (which it stores) or at the end of the stream, and writes a NUL after them; it returns
  \<^verbatim>\<open>NULL\<close> when the stream ends before any character. \<open>fgetws_take k inp\<close> is the
  list of characters stored with room for \<open>k\<close> of them.
\<close>

fun fgetws_take :: "nat \<Rightarrow> wchar list \<Rightarrow> wchar list" where
  "fgetws_take k [] = []"
| "fgetws_take k (c # cs) =
     (if k = 0 then []
      else if c = wc_newline then [c]
      else c # fgetws_take (k - 1) cs)"

definition fgetws :: "nat \<Rightarrow> wchar list \<Rightarrow> wchar list option" where
  "fgetws n inp = (if inp = [] then None else Some (fgetws_take (n - 1) inp))"

text \<open>Writing a string and its terminating NUL into the array from offset \<open>off\<close>.\<close>

fun store_wcs :: "(nat \<Rightarrow> wchar) \<Rightarrow> nat \<Rightarrow> wchar list \<Rightarrow> (nat \<Rightarrow> wchar)" where
  "store_wcs b off [] = b(off := 0)"
| "store_wcs b off (c # cs) = store_wcs (b(off := c)) (off + 1) cs"

definition mill_read_tape :: "wchar list \<Rightarrow> MillTape \<Rightarrow> error + MillTape" where
  "mill_read_tape inp tape =
     (case fgetws (tape_size tape) inp of
        None \<Rightarrow> Inl TapeReadError
      | Some s \<Rightarrow> Inr (tape\<lparr>buf := store_wcs (buf tape) 0 s\<rparr>))"

subsection \<open>mill_run\<close>

text \<open>
  How a run ends. \<open>Unhandled s c\<close> carries what the diagnostic of the stall prints: the
  name \<^verbatim>\<open>symbols[state]\<close> and the character read, a blank shown as \<open>_\<close>. Both it and
  \<open>InvalidHeadMove\<close> are the return value \<open>-1\<close>, \<open>TimedOut\<close> is 1 and \<open>Halted\<close> is 0.
\<close>

datatype outcome = Halted | InvalidHeadMove | Unhandled "wchar list" wchar | TimedOut

definition return_code :: "outcome \<Rightarrow> int" where
  "return_code r = (case r of Halted \<Rightarrow> 0 | InvalidHeadMove \<Rightarrow> -1 | Unhandled s c \<Rightarrow> -1 | TimedOut \<Rightarrow> 1)"

text \<open>
  \<^verbatim>\<open>pos = (pos + dp) % tape->size\<close>: \<open>dp\<close> is an \<^verbatim>\<open>int\<close>, converted to \<^verbatim>\<open>size_t\<close> for the
  addition, which wraps.
\<close>

definition head_move :: "size_t \<Rightarrow> size_t \<Rightarrow> int \<Rightarrow> size_t" where
  "head_move n p dp = size_t_add p (size_t_of_int dp) mod n"

text \<open>
  The inner loop over the instructions, from index \<open>i\<close>, at step \<open>t\<close>, with the head at
  \<open>p\<close>, in state \<open>state\<close>, having read \<open>c\<close>. It either returns from \<^verbatim>\<open>mill_run\<close>
  (\<open>Returned\<close>: the outcome, the tape and \<^verbatim>\<open>*steps\<close>) or leaves the loop, by \<^verbatim>\<open>break\<close>
  or at its end (\<open>Fell\<close>: the tape, \<^verbatim>\<open>pos\<close> and \<^verbatim>\<open>state\<close>).
\<close>

datatype scan_result =
    Returned outcome MillTape nat
  | Fell MillTape size_t size_t

text \<open>The test \<^verbatim>\<open>instr->state_in == state && instr->char_in == c\<close>.\<close>

definition instr_matches :: "MillInstr \<Rightarrow> size_t \<Rightarrow> wchar \<Rightarrow> bool" where
  "instr_matches instr state c = (state_in instr = state \<and> char_in instr = c)"

text \<open>
  What follows the \<^verbatim>\<open>switch (instr->move)\<close> when it has set \<open>dp\<close>: the head moves, and
  the run ends if the new state is \<^verbatim>\<open>halt\<close>; otherwise the \<^verbatim>\<open>break\<close> leaves the loop.
\<close>

definition mill_run_moved ::
  "MillProgram \<Rightarrow> MillTape \<Rightarrow> nat \<Rightarrow> size_t \<Rightarrow> size_t \<Rightarrow> int \<Rightarrow> scan_result" where
  "mill_run_moved prog tape t p state dp =
     (let p' = head_move (tape_size tape) p dp
      in if state = symhalt prog
         then Returned Halted (tape\<lparr>pos := p'\<rparr>) (t + 1)
         else Fell tape p' state)"

text \<open>The body of the \<^verbatim>\<open>if\<close> for the instruction that matched.\<close>

definition mill_run_apply ::
  "MillProgram \<Rightarrow> MillTape \<Rightarrow> nat \<Rightarrow> size_t \<Rightarrow> MillInstr \<Rightarrow> scan_result" where
  "mill_run_apply prog tape t p instr =
     (let tape' = tape\<lparr>buf := (buf tape)(p := char_out instr)\<rparr>;
          state' = state_out instr
      in case move instr of
           HeadMove_left \<Rightarrow> mill_run_moved prog tape' t p state' (- 1)
         | HeadMove_right \<Rightarrow> mill_run_moved prog tape' t p state' 1
         | HeadMove_none \<Rightarrow> Returned InvalidHeadMove (tape'\<lparr>pos := p\<rparr>) (t + 1))"

function mill_run_scan ::
  "MillProgram \<Rightarrow> MillTape \<Rightarrow> nat \<Rightarrow> size_t \<Rightarrow> size_t \<Rightarrow> wchar \<Rightarrow> nat \<Rightarrow> scan_result" where
  "mill_run_scan prog tape t p state c i =
     (if i < length (instructions prog) then
        (if instr_matches (instructions prog ! i) state c
         then mill_run_apply prog tape t p (instructions prog ! i)
         else mill_run_scan prog tape t p state c (i + 1))
      else Fell tape p state)"
  by pat_completeness auto
termination
  by (relation "measure (\<lambda>(prog, tape, t, p, state, c, i). length (instructions prog) - i)") auto

declare mill_run_scan.simps [simp del]

text \<open>
  One pass of the outer loop, at step \<open>t\<close>: it returns from \<^verbatim>\<open>mill_run\<close> (\<open>Inl\<close>) or
  leaves the tape, \<^verbatim>\<open>pos\<close> and \<^verbatim>\<open>state\<close> for the next pass (\<open>Inr\<close>). The stall is
  detected by \<^verbatim>\<open>pos == prev\<close>.
\<close>

definition mill_run_pass ::
  "MillProgram \<Rightarrow> MillTape \<Rightarrow> nat \<Rightarrow> size_t \<Rightarrow> size_t
     \<Rightarrow> (outcome \<times> MillTape \<times> nat) + (MillTape \<times> size_t \<times> size_t)" where
  "mill_run_pass prog tape t p state =
     (let prev = p; c = buf tape p in
      case mill_run_scan prog tape t p state c 0 of
        Returned r tape' n \<Rightarrow> Inl (r, tape', n)
      | Fell tape' p' state' \<Rightarrow>
          if p' = prev
          then Inl (Unhandled (symbols (symtable prog) ! state')
                      (if c = 0 then wc_underscore else c),
                    tape'\<lparr>pos := p'\<rparr>, t + 1)
          else Inr (tape', p', state'))"

text \<open>The outer loop \<^verbatim>\<open>for (size_t t = 0; t < MILL_STEPS_MAX; ++t)\<close>, from \<open>t\<close>.\<close>

function mill_run_loop ::
  "MillProgram \<Rightarrow> MillTape \<Rightarrow> nat \<Rightarrow> size_t \<Rightarrow> size_t \<Rightarrow> outcome \<times> MillTape \<times> nat" where
  "mill_run_loop prog tape t p state =
     (if t < MILL_STEPS_MAX then
        (case mill_run_pass prog tape t p state of
           Inl r \<Rightarrow> r
         | Inr (tape', p', state') \<Rightarrow> mill_run_loop prog tape' (t + 1) p' state')
      else (TimedOut, tape\<lparr>pos := p\<rparr>, MILL_STEPS_MAX))"
  by pat_completeness auto
termination
  by (relation "measure (\<lambda>(prog, tape, t, p, state). MILL_STEPS_MAX - t)") auto

declare mill_run_loop.simps [simp del]

definition mill_run :: "MillProgram \<Rightarrow> MillTape \<Rightarrow> outcome \<times> MillTape \<times> nat" where
  "mill_run prog tape = mill_run_loop prog tape 0 (pos tape) (syminit prog)"

subsection \<open>mill_print_tape\<close>

text \<open>The first loop: backwards from \<open>start\<close>, \<open>i\<close> counting the passes.\<close>

function print_scan_back :: "MillTape \<Rightarrow> nat \<Rightarrow> size_t \<Rightarrow> size_t" where
  "print_scan_back tape i start =
     (if i < tape_size tape then
        (if buf tape start = 0 then start
         else print_scan_back tape (i + 1) (size_t_sub start 1 mod tape_size tape))
      else start)"
  by pat_completeness auto
termination
  by (relation "measure (\<lambda>(tape, i, start). tape_size tape - i)") auto

declare print_scan_back.simps [simp del]

text \<open>The second loop: forwards from \<open>start\<close>.\<close>

function print_scan_fwd :: "MillTape \<Rightarrow> nat \<Rightarrow> size_t \<Rightarrow> size_t" where
  "print_scan_fwd tape i start =
     (if i < tape_size tape then
        (if buf tape start \<noteq> 0 then start
         else print_scan_fwd tape (i + 1) (size_t_add start 1 mod tape_size tape))
      else start)"
  by pat_completeness auto
termination
  by (relation "measure (\<lambda>(tape, i, start). tape_size tape - i)") auto

declare print_scan_fwd.simps [simp del]

text \<open>
  What \<^verbatim>\<open>fputws(&tape->buf[i], ...)\<close> writes: the cells from index \<open>i\<close> up to the first NUL,
  where the cell after the last one of the array is the field \<^verbatim>\<open>_null\<close>.
\<close>

function tape_wcs :: "MillTape \<Rightarrow> nat \<Rightarrow> wchar list" where
  "tape_wcs tape i =
     (if i < tape_size tape then
        (if buf tape i = 0 then [] else buf tape i # tape_wcs tape (i + 1))
      else if null_cell tape = 0 then []
      else [null_cell tape])"
  by pat_completeness auto
termination
  by (relation "measure (\<lambda>(tape, i). tape_size tape - i)") auto

declare tape_wcs.simps [simp del]

definition mill_print_tape :: "MillTape \<Rightarrow> wchar list" where
  "mill_print_tape tape =
     (let start = print_scan_fwd tape 0 (print_scan_back tape 0 0)
      in tape_wcs tape start
         @ (if start > 0 \<and> buf tape 0 \<noteq> 0 then tape_wcs tape 0 else [])
         @ [wc_newline])"

subsection \<open>main\<close>

text \<open>
  The static \<^verbatim>\<open>_Tape\<close>, zero-initialised, with the size that \<^verbatim>\<open>main\<close> sets.
\<close>

definition Tape_zero :: MillTape where
  "Tape_zero = \<lparr>tape_size = MILL_TAPE_SIZE, pos = 0, buf = (\<lambda>i. 0), null_cell = 0\<rparr>"

text \<open>
  What \<^verbatim>\<open>main\<close> does with the three streams: \<open>Output n s\<close> is a run that halted after
  \<open>n\<close> steps and printed \<open>s\<close>; the tape is not printed after any other outcome.
\<close>

datatype main_result =
    ParseFailed error
  | TapeFailed error
  | RunFailed outcome nat
  | Output nat "wchar list"

definition mill_main :: "(wchar \<Rightarrow> bool) \<Rightarrow> wchar list \<Rightarrow> wchar list \<Rightarrow> main_result" where
  "mill_main sp program_text tape_text =
     (case mill_parse_program sp program_text of
        Inl e \<Rightarrow> ParseFailed e
      | Inr prog \<Rightarrow>
          (case mill_read_tape tape_text Tape_zero of
             Inl e \<Rightarrow> TapeFailed e
           | Inr tape \<Rightarrow>
               (case mill_run prog tape of
                  (r, tape', steps) \<Rightarrow>
                    if return_code r \<noteq> 0 then RunFailed r steps
                    else Output steps (mill_print_tape tape'))))"

section \<open>Notions used to state the properties\<close>

text \<open>
  The first matching instruction in declaration order, by recursion on the list: the
  index of the first instruction whose \<open>(state_in, char_in)\<close> is \<open>(state, c)\<close>.
\<close>

fun first_match :: "MillInstr list \<Rightarrow> size_t \<Rightarrow> wchar \<Rightarrow> nat option" where
  "first_match [] state c = None"
| "first_match (instr # instrs) state c =
     (if instr_matches instr state c then Some 0
      else map_option Suc (first_match instrs state c))"

text \<open>
  The tape, head position and state with which pass \<open>n\<close> of the outer loop starts, when
  the first \<open>n\<close> passes (steps 0 to \<open>n - 1\<close>) did not return.
\<close>

fun mill_run_at ::
  "MillProgram \<Rightarrow> MillTape \<Rightarrow> size_t \<Rightarrow> size_t \<Rightarrow> nat \<Rightarrow> (MillTape \<times> size_t \<times> size_t) option" where
  "mill_run_at prog tape p state 0 = Some (tape, p, state)"
| "mill_run_at prog tape p state (Suc n) =
     (case mill_run_at prog tape p state n of
        None \<Rightarrow> None
      | Some (tape', p', state') \<Rightarrow>
          (case mill_run_pass prog tape' n p' state' of
             Inl r \<Rightarrow> None
           | Inr cfg \<Rightarrow> Some cfg))"

text \<open>
  Inserting a list of names one after the other, as the parser does with the state
  names it meets; the first failure ends it.
\<close>

fun symtable_insert_all :: "SymTable \<Rightarrow> wchar list list \<Rightarrow> error + SymTable" where
  "symtable_insert_all st [] = Inr st"
| "symtable_insert_all st (x # xs) =
     (case symtable_insert st x of
        Inl e \<Rightarrow> Inl e
      | Inr (st', i) \<Rightarrow> symtable_insert_all st' xs)"

text \<open>
  What holds of the line parser's variables at the top of its loop: the token is empty
  in the states that wait for a token (and in a comment line), a state name being read
  has at most 32 characters, and once the move has been read \<open>data.move\<close> is set.
\<close>

definition parse_inv :: "nat \<Rightarrow> wchar list \<Rightarrow> MillInstr \<Rightarrow> bool" where
  "parse_inv state token data =
     ((state \<in> {0, 2, 4, 6, 8, 20} \<longrightarrow> token = [])
      \<and> (state \<in> {1, 5} \<longrightarrow> length token \<le> MILL_STATE_MAX)
      \<and> (state \<notin> {0, 1, 2, 3, 4, 5, 6, 7, 8, 9, 20} \<longrightarrow> move data \<noteq> HeadMove_none))"

text \<open>The errors that come from the symbol table.\<close>

definition symtable_error :: "error \<Rightarrow> bool" where
  "symtable_error e = (e = SymbolTableLimit \<or> e = SymbolsBufferExhausted)"

text \<open>
  The character buffer has 33 wide characters for each of the 1024 names: the names
  stored so far use at most 33 each.
\<close>

definition datasize_ok :: "SymTable \<Rightarrow> bool" where
  "datasize_ok st = (datasize st \<le> (MILL_STATE_MAX + 1) * length (symbols st))"

text \<open>
  The rendering as the specification words it (section 4.5), for comparison with
  \<^verbatim>\<open>mill_print_tape\<close>. The seam is the first blank cell met going backwards from index 0
  around the array, in at most \<open>tape_size\<close> steps (index 0 again when no cell is blank);
  the start is the first non-blank cell met going forwards from the seam (the seam when
  every cell is blank); a run is the non-blank cells from an index up to the next blank
  or the end of the array; the output is the run from the start, then the run from
  index 0 if the start is not 0 and cell 0 is not blank, then a newline.
\<close>

definition render_seam :: "MillTape \<Rightarrow> nat" where
  "render_seam tape =
     (case find (\<lambda>i. buf tape i = 0)
             (map (\<lambda>k. (tape_size tape - k) mod tape_size tape) [0..<tape_size tape]) of
        Some i \<Rightarrow> i
      | None \<Rightarrow> 0)"

definition render_start :: "MillTape \<Rightarrow> nat" where
  "render_start tape =
     (case find (\<lambda>i. buf tape i \<noteq> 0)
             (map (\<lambda>k. (render_seam tape + k) mod tape_size tape) [0..<tape_size tape]) of
        Some i \<Rightarrow> i
      | None \<Rightarrow> render_seam tape)"

definition render_run :: "MillTape \<Rightarrow> nat \<Rightarrow> wchar list" where
  "render_run tape i = takeWhile (\<lambda>c. c \<noteq> 0) (map (buf tape) [i..<tape_size tape])"

definition render_spec :: "MillTape \<Rightarrow> wchar list" where
  "render_spec tape =
     (let start = render_start tape
      in render_run tape start
         @ (if start > 0 \<and> buf tape 0 \<noteq> 0 then render_run tape 0 else [])
         @ [wc_newline])"

text \<open>
  The number of cells of the array that are not blank, and whether some cell is blank.
\<close>

definition nonblank_cells :: "MillTape \<Rightarrow> nat" where
  "nonblank_cells tape = card {i. i < tape_size tape \<and> buf tape i \<noteq> 0}"

definition has_blank :: "MillTape \<Rightarrow> bool" where
  "has_blank tape = (\<exists>i<tape_size tape. buf tape i = 0)"

section \<open>Properties\<close>

subsection \<open>Evaluation on concrete inputs\<close>

lemmas mill_consts = MILL_TAPE_SIZE_def MILL_STATES_MAX_def MILL_STATE_MAX_def MILL_INSTR_MAX_def
  MILL_STEPS_MAX_def SIZE_T_RANGE_def wc_newline_def wc_slash_def wc_underscore_def wc_L_def
  wc_R_def

lemmas wcs_simps = wcs_def wcslen_def wcscmp0_def tok_at_def

lemmas parse_simps = mill_parse_instruction_def parse_char_def parse_finish_def
  parse_headmove_def MillInstr_zero_def symtable_insert_def symtable_find.simps

lemmas run_simps = mill_run_def mill_run_loop.simps mill_run_pass_def mill_run_scan.simps
  mill_run_apply_def mill_run_moved_def instr_matches_def head_move_def size_t_add_def
  size_t_of_int_def

lemmas print_simps = mill_print_tape_def print_scan_back.simps print_scan_fwd.simps
  tape_wcs.simps size_t_add_def size_t_sub_def

text \<open>The symbol table after the two insertions that open \<^verbatim>\<open>mill_parse_program\<close>.\<close>

definition preinterned :: SymTable where
  "preinterned = \<lparr>symbols = [wstr ''INIT'', wstr ''HALT''], datasize = 10\<rparr>"

lemma preintern_INIT:
  "symtable_insert SymTable_zero (wstr ''INIT'')
     = Inr (\<lparr>symbols = [wstr ''INIT''], datasize = 5\<rparr>, 0)"
  by (simp add: symtable_insert_def symtable_find.simps SymTable_zero_def wstr_def wcs_simps
        mill_consts)

lemma preintern_HALT:
  "symtable_insert \<lparr>symbols = [wstr ''INIT''], datasize = 5\<rparr> (wstr ''HALT'')
     = Inr (preinterned, 1)"
  by (simp add: symtable_insert_def symtable_find.simps preinterned_def wstr_def wcs_simps
        mill_consts)

lemma mill_parse_program_preinterned:
  "mill_parse_program sp inp =
     mill_parse_program_loop sp inp
       \<lparr>symtable = preinterned, syminit = 0, symhalt = 1, instructions = []\<rparr>"
  by (simp add: mill_parse_program_def preintern_INIT preintern_HALT)

lemma parse_at_end: "mill_parse_instruction sp [] st = Inr ([], st, None)"
  by (simp add: mill_parse_instruction_def parse_finish_def)

text \<open>A program of one line that uses no name but \<open>INIT\<close> and \<open>HALT\<close>.\<close>

lemma parse_single_line:
  assumes "mill_parse_instruction sp inp preinterned = Inr ([], preinterned, Some instr)"
  shows "mill_parse_program sp inp
           = Inr \<lparr>symtable = preinterned, syminit = 0, symhalt = 1, instructions = [instr]\<rparr>"
proof -
  have "mill_parse_program sp inp
          = mill_parse_program_loop sp []
              \<lparr>symtable = preinterned, syminit = 0, symhalt = 1, instructions = [instr]\<rparr>"
    unfolding mill_parse_program_preinterned
    by (subst mill_parse_program_loop.simps) (simp add: assms MILL_INSTR_MAX_def)
  also have "\<dots> = Inr \<lparr>symtable = preinterned, syminit = 0, symhalt = 1, instructions = [instr]\<rparr>"
    by (subst mill_parse_program_loop.simps) (simp add: parse_at_end)
  finally show ?thesis .
qed

subsection \<open>Scenario 1\<close>

definition scenario1_instr :: MillInstr where
  "scenario1_instr =
     \<lparr>state_in = 0, char_in = 97, state_out = 1, char_out = 98, move = HeadMove_right\<rparr>"

definition scenario1_prog :: MillProgram where
  "scenario1_prog =
     \<lparr>symtable = preinterned, syminit = 0, symhalt = 1, instructions = [scenario1_instr]\<rparr>"

definition tape_a :: MillTape where
  "tape_a = Tape_zero\<lparr>buf := (\<lambda>i. if i = 0 then 97 else 0)\<rparr>"

definition scenario1_final :: MillTape where
  "scenario1_final = Tape_zero\<lparr>buf := (\<lambda>i. if i = 0 then 98 else 0), pos := 1\<rparr>"

lemma scenario1_line:
  "mill_parse_instruction iswspace_C (wstr ''INIT a HALT b R'') preinterned
     = Inr ([], preinterned, Some scenario1_instr)"
  by (simp add: parse_simps preinterned_def scenario1_instr_def wstr_def iswspace_C_def
        wcs_simps mill_consts)

lemma scenario1_parse:
  "mill_parse_program iswspace_C (wstr ''INIT a HALT b R'') = Inr scenario1_prog"
  unfolding scenario1_prog_def by (rule parse_single_line [OF scenario1_line])

lemma read_tape_a: "mill_read_tape (wstr ''a'') Tape_zero = Inr tape_a"
  by (simp add: fun_eq_iff mill_read_tape_def fgetws_def wstr_def Tape_zero_def tape_a_def
        mill_consts)

lemma scenario1_run: "mill_run scenario1_prog tape_a = (Halted, scenario1_final, 1)"
  by (simp add: fun_eq_iff run_simps scenario1_prog_def scenario1_instr_def tape_a_def
        scenario1_final_def Tape_zero_def mill_consts)

lemma scenario1_print: "mill_print_tape scenario1_final = wstr ''b\<newline>''"
  by (simp add: print_simps scenario1_final_def Tape_zero_def mill_consts wstr_def)

text \<open>
  C1. Scenario 1, end to end: the program text \<open>INIT a HALT b R\<close> parses to the single
  instruction (INIT, a) \<rightarrow> (HALT, b, right); loading the tape text \<open>a\<close> puts \<open>a\<close> in cell 0;
  the run from state INIT writes \<open>b\<close> in cell 0, moves the head right to cell 1 and ends
  in HALT with the outcome \<open>Halted\<close> and a step count of 1; printing the final tape
  gives \<open>b\<close> and a newline, which is what \<^verbatim>\<open>main\<close> outputs.
\<close>

theorem scenario1_end_to_end:
  "mill_parse_program iswspace_C (wstr ''INIT a HALT b R'') = Inr scenario1_prog
   \<and> syminit scenario1_prog = 0 \<and> symhalt scenario1_prog = 1
   \<and> instructions scenario1_prog
       = [\<lparr>state_in = 0, char_in = of_char CHR ''a'', state_out = 1,
            char_out = of_char CHR ''b'', move = HeadMove_right\<rparr>]
   \<and> mill_read_tape (wstr ''a'') Tape_zero = Inr tape_a
   \<and> buf tape_a 0 = of_char CHR ''a''
   \<and> mill_run scenario1_prog tape_a = (Halted, scenario1_final, 1)
   \<and> buf scenario1_final 0 = of_char CHR ''b''
   \<and> pos scenario1_final = 1
   \<and> mill_print_tape scenario1_final = wstr ''b\<newline>''
   \<and> mill_main iswspace_C (wstr ''INIT a HALT b R'') (wstr ''a'')
       = Output 1 (wstr ''b\<newline>'')"
  by (simp add: scenario1_parse read_tape_a scenario1_run scenario1_print mill_main_def
        return_code_def)
     (simp add: scenario1_prog_def scenario1_instr_def tape_a_def scenario1_final_def
        Tape_zero_def)

subsection \<open>The instruction scan and the head\<close>

lemma first_match_Some:
  "first_match instrs state c = Some k \<Longrightarrow>
     k < length instrs \<and> instr_matches (instrs ! k) state c
     \<and> (\<forall>j<k. \<not> instr_matches (instrs ! j) state c)"
proof (induction instrs arbitrary: k)
  case Nil
  then show ?case by simp
next
  case (Cons a instrs)
  show ?case
  proof (cases "instr_matches a state c")
    case True
    with Cons.prems show ?thesis by simp
  next
    case False
    with Cons.prems obtain k' where k': "first_match instrs state c = Some k'" "k = Suc k'"
      by auto
    from Cons.IH [OF k'(1)] False k'(2) show ?thesis
      by (auto simp: nth_Cons less_Suc_eq_0_disj)
  qed
qed

lemma first_match_None:
  "first_match instrs state c = None \<longleftrightarrow> (\<forall>instr\<in>set instrs. \<not> instr_matches instr state c)"
  by (induction instrs) auto

lemma mill_run_scan_first_match:
  "i \<le> length (instructions prog) \<Longrightarrow>
   mill_run_scan prog tape t p state c i =
     (case first_match (drop i (instructions prog)) state c of
        None \<Rightarrow> Fell tape p state
      | Some k \<Rightarrow> mill_run_apply prog tape t p (instructions prog ! (i + k)))"
proof (induction prog tape t p state c i rule: mill_run_scan.induct)
  case (1 prog tape t p state c i)
  show ?case
  proof (cases "i < length (instructions prog)")
    case False
    then show ?thesis by (simp add: mill_run_scan.simps)
  next
    case True
    then have d: "drop i (instructions prog) = instructions prog ! i # drop (Suc i) (instructions prog)"
      by (simp add: Cons_nth_drop_Suc)
    show ?thesis
    proof (cases "instr_matches (instructions prog ! i) state c")
      case m: True
      with True d show ?thesis by (simp add: mill_run_scan.simps)
    next
      case m: False
      from "1.IH" [OF True m] True
      have "mill_run_scan prog tape t p state c (i + 1) =
        (case first_match (drop (i + 1) (instructions prog)) state c of
           None \<Rightarrow> Fell tape p state
         | Some k \<Rightarrow> mill_run_apply prog tape t p (instructions prog ! (i + 1 + k)))"
        by simp
      with True m d show ?thesis
        by (subst mill_run_scan.simps) (simp split: option.splits)
    qed
  qed
qed

lemma head_move_less: "0 < n \<Longrightarrow> head_move n p dp < n"
  by (simp add: head_move_def)

lemma head_move_right:
  "p < MILL_TAPE_SIZE \<Longrightarrow> head_move MILL_TAPE_SIZE p 1 = (if p + 1 = MILL_TAPE_SIZE then 0 else p + 1)"
  by (simp add: head_move_def size_t_add_def size_t_of_int_def mill_consts)

lemma size_t_pred:
  assumes "0 < p" and "p < SIZE_T_RANGE"
  shows "size_t_add p (size_t_of_int (- 1)) = p - 1"
proof -
  from assms(1) have "p + (SIZE_T_RANGE - 1) = (p - 1) + SIZE_T_RANGE"
    by (simp add: SIZE_T_RANGE_def)
  moreover have "size_t_of_int (- 1) = SIZE_T_RANGE - 1"
    by (simp add: size_t_of_int_def SIZE_T_RANGE_def)
  ultimately have "size_t_add p (size_t_of_int (- 1)) = (p - 1) mod SIZE_T_RANGE"
    by (simp add: size_t_add_def)
  with assms(2) show ?thesis by simp
qed

lemma head_move_left:
  assumes "p < MILL_TAPE_SIZE"
  shows "head_move MILL_TAPE_SIZE p (- 1) = (if p = 0 then MILL_TAPE_SIZE - 1 else p - 1)"
proof (cases "p = 0")
  case True
  then show ?thesis
    by (simp add: head_move_def size_t_add_def size_t_of_int_def mill_consts)
next
  case False
  with assms have "size_t_add p (size_t_of_int (- 1)) = p - 1"
    by (intro size_t_pred) (simp_all add: mill_consts)
  with False assms show ?thesis by (simp add: head_move_def)
qed

lemma head_move_changes:
  assumes "p < MILL_TAPE_SIZE" and "dp = 1 \<or> dp = - 1"
  shows "head_move MILL_TAPE_SIZE p dp \<noteq> p"
  using assms head_move_left [of p] head_move_right [of p]
  by (auto simp: MILL_TAPE_SIZE_def split: if_splits)

lemma mill_run_apply_effect:
  assumes "tape_size tape = MILL_TAPE_SIZE" and "p < MILL_TAPE_SIZE"
  shows "case mill_run_apply prog tape t p instr of
           Returned r tape' n \<Rightarrow>
             n = t + 1 \<and> tape_size tape' = MILL_TAPE_SIZE \<and> null_cell tape' = null_cell tape
             \<and> pos tape' < MILL_TAPE_SIZE \<and> buf tape' = (buf tape)(p := char_out instr)
             \<and> (r = Halted \<or> r = InvalidHeadMove)
             \<and> (r = InvalidHeadMove \<longleftrightarrow> move instr = HeadMove_none)
         | Fell tape' p' state' \<Rightarrow>
             tape_size tape' = MILL_TAPE_SIZE \<and> null_cell tape' = null_cell tape
             \<and> p' < MILL_TAPE_SIZE \<and> p' \<noteq> p \<and> buf tape' = (buf tape)(p := char_out instr)"
proof -
  have n: "0 < MILL_TAPE_SIZE" by (simp add: MILL_TAPE_SIZE_def)
  show ?thesis
  proof (cases "move instr")
    case HeadMove_none
    with assms show ?thesis by (simp add: mill_run_apply_def)
  next
    case HeadMove_left
    with assms head_move_changes [of p "- 1"] head_move_less [OF n, of p "- 1"]
    show ?thesis by (simp add: mill_run_apply_def mill_run_moved_def Let_def)
  next
    case HeadMove_right
    with assms head_move_changes [of p 1] head_move_less [OF n, of p 1]
    show ?thesis by (simp add: mill_run_apply_def mill_run_moved_def Let_def)
  qed
qed

lemma mill_run_scan_effect:
  assumes "tape_size tape = MILL_TAPE_SIZE" and "p < MILL_TAPE_SIZE"
  shows "case mill_run_scan prog tape t p state c 0 of
           Returned r tape' n \<Rightarrow>
             n = t + 1 \<and> tape_size tape' = MILL_TAPE_SIZE \<and> null_cell tape' = null_cell tape
             \<and> pos tape' < MILL_TAPE_SIZE \<and> (\<exists>v. buf tape' = (buf tape)(p := v))
             \<and> (r = Halted \<or> r = InvalidHeadMove)
             \<and> (r = InvalidHeadMove \<longrightarrow> (\<exists>instr\<in>set (instructions prog). move instr = HeadMove_none))
         | Fell tape' p' state' \<Rightarrow>
             tape_size tape' = MILL_TAPE_SIZE \<and> null_cell tape' = null_cell tape
             \<and> p' < MILL_TAPE_SIZE \<and> (\<exists>v. buf tape' = (buf tape)(p := v))
             \<and> (p' = p \<longleftrightarrow> (\<forall>instr\<in>set (instructions prog). \<not> instr_matches instr state c))
             \<and> (p' = p \<longrightarrow> tape' = tape \<and> state' = state)"
proof (cases "first_match (instructions prog) state c")
  case None
  then have "mill_run_scan prog tape t p state c 0 = Fell tape p state"
    by (simp add: mill_run_scan_first_match)
  moreover have "buf tape = (buf tape)(p := buf tape p)" by simp
  ultimately show ?thesis using assms None
    by (auto simp: first_match_None simp del: fun_upd_triv)
next
  case (Some k)
  from first_match_Some [OF Some]
  have k: "k < length (instructions prog)" "instr_matches (instructions prog ! k) state c"
    by auto
  then have m: "\<not> (\<forall>instr\<in>set (instructions prog). \<not> instr_matches instr state c)"
    using nth_mem by blast
  from Some have "mill_run_scan prog tape t p state c 0
      = mill_run_apply prog tape t p (instructions prog ! k)"
    by (simp add: mill_run_scan_first_match)
  with mill_run_apply_effect [where prog = prog and t = t and instr = "instructions prog ! k",
      OF assms] k(1) m
  show ?thesis
    by (auto split: scan_result.splits)
qed


lemma mill_run_pass_effect:
  assumes "tape_size tape = MILL_TAPE_SIZE" and "p < MILL_TAPE_SIZE"
  shows "case mill_run_pass prog tape t p state of
           Inl (r, tape', n) \<Rightarrow>
             n = t + 1 \<and> tape_size tape' = MILL_TAPE_SIZE \<and> null_cell tape' = null_cell tape
             \<and> pos tape' < MILL_TAPE_SIZE \<and> (\<exists>v. buf tape' = (buf tape)(p := v))
             \<and> r \<noteq> TimedOut
             \<and> (r = InvalidHeadMove \<longrightarrow> (\<exists>instr\<in>set (instructions prog). move instr = HeadMove_none))
             \<and> ((\<exists>s c. r = Unhandled s c) \<longrightarrow>
                  (\<forall>instr\<in>set (instructions prog). \<not> instr_matches instr state (buf tape p)))
         | Inr (tape', p', state') \<Rightarrow>
             tape_size tape' = MILL_TAPE_SIZE \<and> null_cell tape' = null_cell tape
             \<and> p' < MILL_TAPE_SIZE \<and> p' \<noteq> p \<and> (\<exists>v. buf tape' = (buf tape)(p := v))
             \<and> (\<exists>instr\<in>set (instructions prog). instr_matches instr state (buf tape p))"
  using mill_run_scan_effect [where prog = prog and t = t and state = state
      and c = "buf tape p", OF assms] assms
  by (auto simp: mill_run_pass_def Let_def split: scan_result.splits)

lemma mill_run_at_invariant:
  assumes "tape_size tape = MILL_TAPE_SIZE" and "p < MILL_TAPE_SIZE"
    and "mill_run_at prog tape p state n = Some (tape', p', state')"
  shows "tape_size tape' = MILL_TAPE_SIZE \<and> p' < MILL_TAPE_SIZE \<and> null_cell tape' = null_cell tape"
  using assms(3)
proof (induction n arbitrary: tape' p' state')
  case 0
  with assms(1,2) show ?case by simp
next
  case (Suc n)
  from Suc.prems obtain tape1 p1 state1 where
    at: "mill_run_at prog tape p state n = Some (tape1, p1, state1)"
    and pass: "mill_run_pass prog tape1 n p1 state1 = Inr (tape', p', state')"
    by (auto split: option.splits sum.splits)
  from Suc.IH [OF at] have ok: "tape_size tape1 = MILL_TAPE_SIZE" "p1 < MILL_TAPE_SIZE"
    and nc: "null_cell tape1 = null_cell tape" by auto
  from mill_run_pass_effect [where prog = prog and t = n and state = state1, OF ok] pass nc
  show ?case by simp
qed

lemma mill_run_loop_at:
  assumes "mill_run_at prog tape p state n = Some (tape', p', state')" and "n \<le> MILL_STEPS_MAX"
  shows "mill_run_loop prog tape 0 p state = mill_run_loop prog tape' n p' state'"
  using assms
proof (induction n arbitrary: tape' p' state')
  case 0
  then show ?case by simp
next
  case (Suc n)
  from Suc.prems(1) obtain tape1 p1 state1 where
    at: "mill_run_at prog tape p state n = Some (tape1, p1, state1)"
    and pass: "mill_run_pass prog tape1 n p1 state1 = Inr (tape', p', state')"
    by (auto split: option.splits sum.splits)
  from Suc.prems(2) have n: "n < MILL_STEPS_MAX" by simp
  with Suc.IH [OF at] have "mill_run_loop prog tape 0 p state = mill_run_loop prog tape1 n p1 state1"
    by simp
  also from n pass have "\<dots> = mill_run_loop prog tape' (Suc n) p' state'"
    by (subst mill_run_loop.simps) simp
  finally show ?case .
qed

lemma mill_run_loop_invariant:
  assumes "tape_size tape = MILL_TAPE_SIZE" and "p < MILL_TAPE_SIZE"
    and "mill_run_loop prog tape t p state = (r, tape', n)"
  shows "tape_size tape' = MILL_TAPE_SIZE \<and> pos tape' < MILL_TAPE_SIZE
         \<and> null_cell tape' = null_cell tape"
  using assms
proof (induction prog tape t p state rule: mill_run_loop.induct)
  case (1 prog tape t p state)
  show ?case
  proof (cases "t < MILL_STEPS_MAX")
    case False
    with "1.prems" show ?thesis by (auto simp: mill_run_loop.simps)
  next
    case True
    note eff = mill_run_pass_effect [where prog = prog and t = t and state = state,
        OF "1.prems"(1,2)]
    show ?thesis
    proof (cases "mill_run_pass prog tape t p state")
      case (Inl res)
      with True "1.prems"(3) have "res = (r, tape', n)" by (simp add: mill_run_loop.simps)
      with eff Inl show ?thesis by simp
    next
      case (Inr cfg)
      obtain tape1 p1 state1 where cfg: "cfg = (tape1, p1, state1)" by (cases cfg) auto
      with True Inr "1.prems"(3) have "mill_run_loop prog tape1 (t + 1) p1 state1 = (r, tape', n)"
        by (simp add: mill_run_loop.simps)
      moreover from eff Inr cfg
      have "tape_size tape1 = MILL_TAPE_SIZE" "p1 < MILL_TAPE_SIZE" "null_cell tape1 = null_cell tape"
        by auto
      ultimately show ?thesis using "1.IH" [OF True Inr cfg [symmetric] refl] by simp
    qed
  qed
qed


subsection \<open>First match\<close>

text \<open>Two instructions for the pair (INIT, a), with different outputs.\<close>

definition dup_prog :: MillProgram where
  "dup_prog =
     \<lparr>symtable = preinterned, syminit = 0, symhalt = 1,
      instructions =
        [\<lparr>state_in = 0, char_in = 97, state_out = 1, char_out = 98, move = HeadMove_right\<rparr>,
         \<lparr>state_in = 0, char_in = 97, state_out = 1, char_out = 99, move = HeadMove_left\<rparr>]\<rparr>"

lemma mill_run_pass_first_match:
  "mill_run_pass prog tape t p state =
     (case first_match (instructions prog) state (buf tape p) of
        None \<Rightarrow>
          Inl (Unhandled (symbols (symtable prog) ! state)
                 (if buf tape p = 0 then wc_underscore else buf tape p),
               tape\<lparr>pos := p\<rparr>, t + 1)
      | Some k \<Rightarrow>
          (case mill_run_apply prog tape t p (instructions prog ! k) of
             Returned r tape' n \<Rightarrow> Inl (r, tape', n)
           | Fell tape' p' state' \<Rightarrow>
               if p' = p
               then Inl (Unhandled (symbols (symtable prog) ! state')
                           (if buf tape p = 0 then wc_underscore else buf tape p),
                         tape'\<lparr>pos := p'\<rparr>, t + 1)
               else Inr (tape', p', state')))"
proof (cases "first_match (instructions prog) state (buf tape p)")
  case None
  then have "mill_run_scan prog tape t p state (buf tape p) 0 = Fell tape p state"
    by (simp add: mill_run_scan_first_match)
  with None show ?thesis by (simp add: mill_run_pass_def)
next
  case (Some k)
  then have "mill_run_scan prog tape t p state (buf tape p) 0
      = mill_run_apply prog tape t p (instructions prog ! k)"
    by (simp add: mill_run_scan_first_match)
  with Some show ?thesis by (simp add: mill_run_pass_def Let_def)
qed

lemma mill_run_step:
  assumes "mill_run_at prog tape (pos tape) (syminit prog) t = Some (tape', p', state')"
    and "t < MILL_STEPS_MAX"
  shows "mill_run prog tape =
           (case mill_run_pass prog tape' t p' state' of
              Inl r \<Rightarrow> r
            | Inr (tape'', p'', state'') \<Rightarrow> mill_run_loop prog tape'' (t + 1) p'' state'')"
proof -
  from assms have "mill_run prog tape = mill_run_loop prog tape' t p' state'"
    unfolding mill_run_def using mill_run_loop_at [OF assms(1)] by simp
  also from assms(2) have "\<dots> =
           (case mill_run_pass prog tape' t p' state' of
              Inl r \<Rightarrow> r
            | Inr (tape'', p'', state'') \<Rightarrow> mill_run_loop prog tape'' (t + 1) p'' state'')"
    by (subst mill_run_loop.simps) simp
  finally show ?thesis .
qed

text \<open>
  C2. First match in declaration order. The scan of the instructions from index 0 does
  what the first instruction in file order that matches \<open>(state, c)\<close> says, and falls
  through unchanged when none matches; the index selected is below every other matching
  index; an instruction that matches a pair that an earlier instruction matches is never
  the one selected. A pass of the engine is this scan with the current state and the
  symbol under the head: it applies the first matching instruction and no other, and
  stalls when there is none. And at every step \<open>n\<close> below the step cap that a run
  reaches, the result of \<^verbatim>\<open>mill_run\<close> is what this pass returns, or the run goes on from
  what the pass leaves.
\<close>

theorem first_match_priority:
  "mill_run_scan prog tape t p state c 0 =
     (case first_match (instructions prog) state c of
        None \<Rightarrow> Fell tape p state
      | Some k \<Rightarrow> mill_run_apply prog tape t p (instructions prog ! k))
   \<and> (\<forall>k. first_match (instructions prog) state c = Some k \<longrightarrow>
          k < length (instructions prog)
          \<and> instr_matches (instructions prog ! k) state c
          \<and> (\<forall>j<k. \<not> instr_matches (instructions prog ! j) state c))
   \<and> (\<forall>i j. i < j \<and> j < length (instructions prog)
          \<and> instr_matches (instructions prog ! i) state c
          \<and> instr_matches (instructions prog ! j) state c \<longrightarrow>
          first_match (instructions prog) state c \<noteq> Some j)
   \<and> mill_run_pass prog tape t p state =
       (case first_match (instructions prog) state (buf tape p) of
          None \<Rightarrow>
            Inl (Unhandled (symbols (symtable prog) ! state)
                   (if buf tape p = 0 then wc_underscore else buf tape p),
                 tape\<lparr>pos := p\<rparr>, t + 1)
        | Some k \<Rightarrow>
            (case mill_run_apply prog tape t p (instructions prog ! k) of
               Returned r tape' n \<Rightarrow> Inl (r, tape', n)
             | Fell tape' p' state' \<Rightarrow>
                 if p' = p
                 then Inl (Unhandled (symbols (symtable prog) ! state')
                             (if buf tape p = 0 then wc_underscore else buf tape p),
                           tape'\<lparr>pos := p'\<rparr>, t + 1)
                 else Inr (tape', p', state')))
   \<and> (\<forall>tape0 n tape1 p1 state1.
         mill_run_at prog tape0 (pos tape0) (syminit prog) n = Some (tape1, p1, state1)
         \<and> n < MILL_STEPS_MAX \<longrightarrow>
           mill_run prog tape0 =
             (case mill_run_pass prog tape1 n p1 state1 of
                Inl r \<Rightarrow> r
              | Inr (tape2, p2, state2) \<Rightarrow> mill_run_loop prog tape2 (n + 1) p2 state2)
           \<and> mill_run_at prog tape0 (pos tape0) (syminit prog) (Suc n) =
               (case mill_run_pass prog tape1 n p1 state1 of
                  Inl r \<Rightarrow> None
                | Inr cfg \<Rightarrow> Some cfg))"
proof (intro conjI allI impI)
  show "mill_run_scan prog tape t p state c 0 =
     (case first_match (instructions prog) state c of
        None \<Rightarrow> Fell tape p state
      | Some k \<Rightarrow> mill_run_apply prog tape t p (instructions prog ! k))"
    by (simp add: mill_run_scan_first_match split: option.splits)
next
  fix k assume "first_match (instructions prog) state c = Some k"
  from first_match_Some [OF this]
  show "k < length (instructions prog)"
    and "instr_matches (instructions prog ! k) state c"
    and "\<And>j. j < k \<Longrightarrow> \<not> instr_matches (instructions prog ! j) state c"
    by auto
next
  fix i j
  assume a: "i < j \<and> j < length (instructions prog)
          \<and> instr_matches (instructions prog ! i) state c
          \<and> instr_matches (instructions prog ! j) state c"
  show "first_match (instructions prog) state c \<noteq> Some j"
  proof
    assume "first_match (instructions prog) state c = Some j"
    from first_match_Some [OF this] a show False by blast
  qed
next
  show "mill_run_pass prog tape t p state =
       (case first_match (instructions prog) state (buf tape p) of
          None \<Rightarrow>
            Inl (Unhandled (symbols (symtable prog) ! state)
                   (if buf tape p = 0 then wc_underscore else buf tape p),
                 tape\<lparr>pos := p\<rparr>, t + 1)
        | Some k \<Rightarrow>
            (case mill_run_apply prog tape t p (instructions prog ! k) of
               Returned r tape' n \<Rightarrow> Inl (r, tape', n)
             | Fell tape' p' state' \<Rightarrow>
                 if p' = p
                 then Inl (Unhandled (symbols (symtable prog) ! state')
                             (if buf tape p = 0 then wc_underscore else buf tape p),
                           tape'\<lparr>pos := p'\<rparr>, t + 1)
                 else Inr (tape', p', state')))"
    by (rule mill_run_pass_first_match)
next
  fix tape0 n tape1 p1 state1
  assume a: "mill_run_at prog tape0 (pos tape0) (syminit prog) n = Some (tape1, p1, state1)
         \<and> n < MILL_STEPS_MAX"
  then have at: "mill_run_at prog tape0 (pos tape0) (syminit prog) n = Some (tape1, p1, state1)"
    and n: "n < MILL_STEPS_MAX" by simp_all
  show "mill_run prog tape0 =
             (case mill_run_pass prog tape1 n p1 state1 of
                Inl r \<Rightarrow> r
              | Inr (tape2, p2, state2) \<Rightarrow> mill_run_loop prog tape2 (n + 1) p2 state2)"
    by (rule mill_run_step [OF at n])
  show "mill_run_at prog tape0 (pos tape0) (syminit prog) (Suc n) =
               (case mill_run_pass prog tape1 n p1 state1 of
                  Inl r \<Rightarrow> None
                | Inr cfg \<Rightarrow> Some cfg)"
    by (simp add: at)
qed

lemma dup_prog_pass: "mill_run_pass dup_prog tape_a 0 0 0 = Inl (Halted, scenario1_final, 1)"
  by (simp add: fun_eq_iff mill_run_pass_def mill_run_scan.simps mill_run_apply_def
        mill_run_moved_def instr_matches_def head_move_def size_t_add_def size_t_of_int_def
        dup_prog_def tape_a_def scenario1_final_def Tape_zero_def mill_consts)

theorem first_match_priority_witness:
  "instr_matches (instructions dup_prog ! 0) 0 97
   \<and> instr_matches (instructions dup_prog ! 1) 0 97
   \<and> first_match (instructions dup_prog) 0 97 = Some 0
   \<and> first_match (instructions dup_prog) 0 97 \<noteq> Some 1
   \<and> mill_run_scan dup_prog tape_a 0 0 0 97 0 = Returned Halted scenario1_final 1
   \<and> buf scenario1_final 0 = 98
   \<and> mill_run_at dup_prog tape_a (pos tape_a) (syminit dup_prog) 0 = Some (tape_a, 0, 0)
   \<and> 0 < MILL_STEPS_MAX
   \<and> buf tape_a 0 = 97
   \<and> mill_run_pass dup_prog tape_a 0 0 0 = Inl (Halted, scenario1_final, 1)
   \<and> mill_run dup_prog tape_a = (Halted, scenario1_final, 1)"
proof -
  note t = first_match_priority [of dup_prog tape_a 0 0 0 97]
  have m: "instr_matches (instructions dup_prog ! 0) 0 97"
    "instr_matches (instructions dup_prog ! 1) 0 97"
    by (simp_all add: dup_prog_def instr_matches_def)
  have f: "first_match (instructions dup_prog) 0 97 = Some 0"
    by (simp add: dup_prog_def instr_matches_def)
  have ap: "mill_run_apply dup_prog tape_a 0 0 (instructions dup_prog ! 0)
      = Returned Halted scenario1_final 1"
    by (simp add: fun_eq_iff mill_run_apply_def mill_run_moved_def head_move_def size_t_add_def
        size_t_of_int_def dup_prog_def tape_a_def scenario1_final_def Tape_zero_def mill_consts)
  from t [THEN conjunct1] have s:
    "mill_run_scan dup_prog tape_a 0 0 0 97 0 = Returned Halted scenario1_final 1"
    by (simp add: f ap)
  have b: "buf tape_a 0 = 97" by (simp add: tape_a_def Tape_zero_def)
  from t [THEN conjunct2, THEN conjunct2, THEN conjunct2, THEN conjunct1]
  have ps: "mill_run_pass dup_prog tape_a 0 0 0 = Inl (Halted, scenario1_final, 1)"
    by (simp add: b f ap)
  have h: "mill_run_at dup_prog tape_a (pos tape_a) (syminit dup_prog) 0 = Some (tape_a, 0, 0)
      \<and> 0 < MILL_STEPS_MAX"
    by (simp add: tape_a_def Tape_zero_def dup_prog_def MILL_STEPS_MAX_def)
  from t [THEN conjunct2, THEN conjunct2, THEN conjunct2, THEN conjunct2, THEN spec, THEN spec,
      THEN spec, THEN spec, THEN spec, THEN mp, OF h, THEN conjunct1]
  have r: "mill_run dup_prog tape_a = (Halted, scenario1_final, 1)"
    by (simp add: ps)
  have v: "buf scenario1_final 0 = 98" by (simp add: scenario1_final_def Tape_zero_def)
  from m f s v h b ps r show ?thesis by simp
qed

subsection \<open>Stall\<close>

definition tape_x :: MillTape where
  "tape_x = Tape_zero\<lparr>buf := (\<lambda>i. if i = 0 then 120 else 0)\<rparr>"

lemma read_tape_x: "mill_read_tape (wstr ''x'') Tape_zero = Inr tape_x"
  by (simp add: fun_eq_iff mill_read_tape_def fgetws_def wstr_def Tape_zero_def tape_x_def
        mill_consts)





subsection \<open>The step cap\<close>

text \<open>The program of Scenario 3, \<open>INIT a INIT a R\<close>.\<close>

definition self_loop_prog :: MillProgram where
  "self_loop_prog =
     \<lparr>symtable = preinterned, syminit = 0, symhalt = 1,
      instructions =
        [\<lparr>state_in = 0, char_in = 97, state_out = 0, char_out = 97, move = HeadMove_right\<rparr>]\<rparr>"

lemma self_loop_line:
  "mill_parse_instruction iswspace_C (wstr ''INIT a INIT a R'') preinterned
     = Inr ([], preinterned,
         Some \<lparr>state_in = 0, char_in = 97, state_out = 0, char_out = 97, move = HeadMove_right\<rparr>)"
  by (simp add: parse_simps preinterned_def wstr_def iswspace_C_def wcs_simps mill_consts)

lemma self_loop_parse:
  "mill_parse_program iswspace_C (wstr ''INIT a INIT a R'') = Inr self_loop_prog"
  unfolding self_loop_prog_def by (rule parse_single_line [OF self_loop_line])

lemma self_loop_run:
  "mill_run self_loop_prog tape_a = (Unhandled (wstr ''INIT'') wc_underscore, tape_a\<lparr>pos := 1\<rparr>, 2)"
  by (simp add: fun_eq_iff run_simps self_loop_prog_def preinterned_def tape_a_def
        Tape_zero_def mill_consts)

text \<open>
  C5, as the claim states it, fails on its own example: on the tape \<open>a\<close> the program
  \<open>INIT a INIT a R\<close> moves to cell 1, reads a blank there, which no instruction handles,
  and stalls with a step count of 2; \<^verbatim>\<open>main\<close> reports the unhandled state \<open>INIT '_'\<close>.
\<close>

theorem self_loop_stalls:
  "mill_parse_program iswspace_C (wstr ''INIT a INIT a R'') = Inr self_loop_prog
   \<and> mill_read_tape (wstr ''a'') Tape_zero = Inr tape_a
   \<and> mill_run self_loop_prog tape_a
        = (Unhandled (wstr ''INIT'') (of_char CHR ''_''), tape_a\<lparr>pos := 1\<rparr>, 2)
   \<and> fst (mill_run self_loop_prog tape_a) \<noteq> TimedOut
   \<and> snd (snd (mill_run self_loop_prog tape_a)) \<noteq> 1000000
   \<and> mill_main iswspace_C (wstr ''INIT a INIT a R'') (wstr ''a'')
        = RunFailed (Unhandled (wstr ''INIT'') (of_char CHR ''_'')) 2"
  by (simp add: self_loop_parse read_tape_a self_loop_run mill_main_def return_code_def
        wc_underscore_def)

text \<open>
  C5, amended. When each of the first 1,000,000 passes of a run leaves the loop body
  without returning (no halt, no stall, no invalid move), the run ends with the outcome
  \<open>TimedOut\<close>, a step count of exactly 1,000,000, and the tape and the stored head
  position that the last pass left.
\<close>

theorem timeout_at_step_cap:
  assumes "mill_run_at prog tape (pos tape) (syminit prog) MILL_STEPS_MAX = Some (tape', p', state')"
  shows "mill_run prog tape = (TimedOut, tape'\<lparr>pos := p'\<rparr>, 1000000)"
proof -
  have "mill_run prog tape = mill_run_loop prog tape' MILL_STEPS_MAX p' state'"
    unfolding mill_run_def using mill_run_loop_at [OF assms] by simp
  also have "\<dots> = (TimedOut, tape'\<lparr>pos := p'\<rparr>, MILL_STEPS_MAX)"
    by (subst mill_run_loop.simps) simp
  finally show ?thesis by (simp add: MILL_STEPS_MAX_def)
qed

text \<open>\<open>INIT a INIT _ R\<close> and \<open>INIT _ INIT _ R\<close>: the head runs right over blanks for ever.\<close>

definition blank_loop_prog :: MillProgram where
  "blank_loop_prog =
     \<lparr>symtable = preinterned, syminit = 0, symhalt = 1,
      instructions =
        [\<lparr>state_in = 0, char_in = 97, state_out = 0, char_out = 0, move = HeadMove_right\<rparr>,
         \<lparr>state_in = 0, char_in = 0, state_out = 0, char_out = 0, move = HeadMove_right\<rparr>]\<rparr>"

lemma blank_loop_first:
  "mill_run_pass blank_loop_prog tape_a 0 0 0 = Inr (Tape_zero, 1, 0)"
  by (simp add: fun_eq_iff mill_run_pass_def mill_run_scan.simps mill_run_apply_def
        mill_run_moved_def instr_matches_def head_move_def size_t_add_def size_t_of_int_def
        blank_loop_prog_def tape_a_def Tape_zero_def mill_consts)

lemma blank_loop_next:
  assumes "n + 1 < MILL_TAPE_SIZE"
  shows "mill_run_pass blank_loop_prog Tape_zero t n 0 = Inr (Tape_zero, n + 1, 0)"
proof -
  from assms have "head_move MILL_TAPE_SIZE n 1 = n + 1"
    by (simp add: head_move_right)
  then show ?thesis
    by (simp add: fun_eq_iff mill_run_pass_def mill_run_scan.simps mill_run_apply_def
        mill_run_moved_def instr_matches_def blank_loop_prog_def Tape_zero_def)
qed

lemma blank_loop_at:
  "n < MILL_TAPE_SIZE - 1 \<Longrightarrow>
   mill_run_at blank_loop_prog tape_a 0 0 (Suc n) = Some (Tape_zero, Suc n, 0)"
proof (induction n)
  case 0
  then show ?case by (simp add: blank_loop_first)
next
  case (Suc n)
  then have "mill_run_at blank_loop_prog tape_a 0 0 (Suc n) = Some (Tape_zero, Suc n, 0)"
    by simp
  moreover from Suc.prems have "mill_run_pass blank_loop_prog Tape_zero (Suc n) (Suc n) 0
      = Inr (Tape_zero, Suc n + 1, 0)"
    by (intro blank_loop_next) simp
  ultimately show ?case by simp
qed

theorem timeout_at_step_cap_witness:
  "mill_run_at blank_loop_prog tape_a (pos tape_a) (syminit blank_loop_prog) MILL_STEPS_MAX
     = Some (Tape_zero, 1000000, 0)
   \<and> mill_run blank_loop_prog tape_a = (TimedOut, Tape_zero\<lparr>pos := 1000000\<rparr>, 1000000)"
proof -
  have "mill_run_at blank_loop_prog tape_a 0 0 (Suc 999999) = Some (Tape_zero, Suc 999999, 0)"
    by (rule blank_loop_at) (simp add: MILL_TAPE_SIZE_def)
  then have h: "mill_run_at blank_loop_prog tape_a (pos tape_a) (syminit blank_loop_prog)
      MILL_STEPS_MAX = Some (Tape_zero, 1000000, 0)"
    by (simp add: tape_a_def Tape_zero_def blank_loop_prog_def MILL_STEPS_MAX_def)
  from timeout_at_step_cap [OF h] h show ?thesis by simp
qed


subsection \<open>The head stays on the tape\<close>

text \<open>The program of Scenario 4, \<open>INIT a HALT _ L\<close>.\<close>

definition scenario4_prog :: MillProgram where
  "scenario4_prog =
     \<lparr>symtable = preinterned, syminit = 0, symhalt = 1,
      instructions =
        [\<lparr>state_in = 0, char_in = 97, state_out = 1, char_out = 0, move = HeadMove_left\<rparr>]\<rparr>"

lemma scenario4_line:
  "mill_parse_instruction iswspace_C (wstr ''INIT a HALT _ L'') preinterned
     = Inr ([], preinterned,
         Some \<lparr>state_in = 0, char_in = 97, state_out = 1, char_out = 0, move = HeadMove_left\<rparr>)"
  by (simp add: parse_simps preinterned_def wstr_def iswspace_C_def wcs_simps mill_consts)

lemma scenario4_parse:
  "mill_parse_program iswspace_C (wstr ''INIT a HALT _ L'') = Inr scenario4_prog"
  unfolding scenario4_prog_def by (rule parse_single_line [OF scenario4_line])

lemma scenario4_run:
  "mill_run scenario4_prog tape_a = (Halted, Tape_zero\<lparr>pos := 1048575\<rparr>, 1)"
  by (simp add: fun_eq_iff run_simps scenario4_prog_def tape_a_def Tape_zero_def mill_consts)

lemma foldl_head_move_less:
  "p < MILL_TAPE_SIZE \<Longrightarrow> foldl (head_move MILL_TAPE_SIZE) p dps < MILL_TAPE_SIZE"
proof (induction dps arbitrary: p)
  case Nil
  then show ?case by simp
next
  case (Cons dp dps)
  have "head_move MILL_TAPE_SIZE p dp < MILL_TAPE_SIZE"
    by (rule head_move_less) (simp add: MILL_TAPE_SIZE_def)
  from Cons.IH [OF this] show ?case by simp
qed

text \<open>
  C6. The head. With \<open>N = MILL_TAPE_SIZE = 1048576\<close>: the head update yields an index
  below \<open>N\<close> for every position and displacement, so any sequence of moves from an index
  below \<open>N\<close> stays below \<open>N\<close>; a left move from index 0 lands on \<open>N - 1\<close>, the
  conversion of \<open>-1\<close> to \<^verbatim>\<open>size_t\<close> and the wrapping addition included; and in a run from a
  tape of size \<open>N\<close> with its head below \<open>N\<close>, the head is below \<open>N\<close> at the start of every
  pass and in the tape that the run returns.
\<close>

theorem head_stays_in_range:
  "MILL_TAPE_SIZE = 1048576
   \<and> (\<forall>p dp. head_move MILL_TAPE_SIZE p dp < MILL_TAPE_SIZE)
   \<and> (\<forall>p dps. p < MILL_TAPE_SIZE \<longrightarrow> foldl (head_move MILL_TAPE_SIZE) p dps < MILL_TAPE_SIZE)
   \<and> head_move MILL_TAPE_SIZE 0 (- 1) = MILL_TAPE_SIZE - 1
   \<and> (tape_size tape = MILL_TAPE_SIZE \<and> pos tape < MILL_TAPE_SIZE \<longrightarrow>
        (\<forall>n tape' p' state'.
            mill_run_at prog tape (pos tape) (syminit prog) n = Some (tape', p', state')
            \<longrightarrow> p' < MILL_TAPE_SIZE)
        \<and> (\<forall>r tape' k. mill_run prog tape = (r, tape', k) \<longrightarrow> pos tape' < MILL_TAPE_SIZE))"
proof (intro conjI allI impI)
  show "MILL_TAPE_SIZE = 1048576" by (simp add: MILL_TAPE_SIZE_def)
next
  fix p dp show "head_move MILL_TAPE_SIZE p dp < MILL_TAPE_SIZE"
    by (rule head_move_less) (simp add: MILL_TAPE_SIZE_def)
next
  fix p :: nat and dps assume "p < MILL_TAPE_SIZE"
  then show "foldl (head_move MILL_TAPE_SIZE) p dps < MILL_TAPE_SIZE"
    by (rule foldl_head_move_less)
next
  show "head_move MILL_TAPE_SIZE 0 (- 1) = MILL_TAPE_SIZE - 1"
    using head_move_left [of 0] by (simp add: MILL_TAPE_SIZE_def)
next
  fix n tape' p' state'
  assume "tape_size tape = MILL_TAPE_SIZE \<and> pos tape < MILL_TAPE_SIZE"
    and "mill_run_at prog tape (pos tape) (syminit prog) n = Some (tape', p', state')"
  then show "p' < MILL_TAPE_SIZE"
    using mill_run_at_invariant [of tape "pos tape" prog "syminit prog" n tape' p' state']
    by simp
next
  fix r tape' k
  assume "tape_size tape = MILL_TAPE_SIZE \<and> pos tape < MILL_TAPE_SIZE"
    and "mill_run prog tape = (r, tape', k)"
  then show "pos tape' < MILL_TAPE_SIZE"
    using mill_run_loop_invariant [of tape "pos tape" prog 0 "syminit prog" r tape' k]
    by (simp add: mill_run_def)
qed

theorem head_stays_in_range_witness:
  "tape_size tape_a = MILL_TAPE_SIZE \<and> pos tape_a < MILL_TAPE_SIZE
   \<and> mill_run scenario4_prog tape_a = (Halted, Tape_zero\<lparr>pos := 1048575\<rparr>, 1)
   \<and> pos (Tape_zero\<lparr>pos := 1048575\<rparr>) < MILL_TAPE_SIZE
   \<and> head_move MILL_TAPE_SIZE 0 (- 1) = 1048575"
  using head_stays_in_range [of tape_a scenario4_prog] scenario4_run
  by (simp add: tape_a_def Tape_zero_def MILL_TAPE_SIZE_def)


subsection \<open>The parser and the symbol table\<close>

lemma parse_headmove_Inr:
  "parse_headmove token = Inr m \<Longrightarrow> m = HeadMove_left \<or> m = HeadMove_right"
  by (auto simp: parse_headmove_def split: if_splits)

lemma parse_headmove_Inl:
  "parse_headmove token = Inl e \<Longrightarrow> e = InvalidMove (wcs token)"
  by (auto simp: parse_headmove_def split: if_splits)

lemma parse_char_PCont:
  assumes "parse_inv state token data"
    and "parse_char sp state c token data st = PCont s' t' d' st'"
  shows "parse_inv s' t' d'
         \<and> (st' = st \<or> (\<exists>x i. length x \<le> MILL_STATE_MAX \<and> symtable_insert st x = Inr (st', i)))"
  using assms
  by (auto simp: parse_char_def parse_inv_def Let_def MILL_STATE_MAX_def
        split: if_splits sum.splits prod.splits dest: parse_headmove_Inr)


lemma parse_char_PErr:
  assumes "parse_inv state token data"
    and "parse_char sp state c token data st = PErr e"
  shows "\<not> symtable_error e
         \<or> (\<exists>x. length x \<le> MILL_STATE_MAX \<and> symtable_insert st x = Inl e)"
  using assms
  by (auto simp: parse_char_def parse_inv_def Let_def MILL_STATE_MAX_def symtable_error_def
        split: if_splits sum.splits prod.splits dest: parse_headmove_Inl)

lemma parse_finish_Inl: "parse_finish state token data = Inl e \<Longrightarrow> \<not> symtable_error e"
  by (auto simp: parse_finish_def symtable_error_def split: if_splits sum.splits
        dest: parse_headmove_Inl)

lemma parse_finish_Some:
  assumes "parse_inv state token data" and "parse_finish state token data = Inr (Some instr)"
  shows "move instr \<noteq> HeadMove_none"
  using assms
  by (auto simp: parse_finish_def parse_inv_def split: if_splits sum.splits
        dest: parse_headmove_Inr)

lemma symtable_insert_all_append:
  "symtable_insert_all st (xs @ ys) =
     (case symtable_insert_all st xs of Inl e \<Rightarrow> Inl e | Inr st' \<Rightarrow> symtable_insert_all st' ys)"
  by (induction xs arbitrary: st) (auto split: sum.splits)

text \<open>
  What a call of the line parser does to the symbol table: it inserts a list of names of
  at most 32 characters each.
\<close>

lemma parse_loop_Inr:
  assumes "parse_inv state token data"
    and "parse_loop sp inp st data token state = Inr (rest, st', r)"
  shows "(\<exists>names. (\<forall>x\<in>set names. length x \<le> MILL_STATE_MAX)
            \<and> symtable_insert_all st names = Inr st')
         \<and> (\<forall>instr. r = Some instr \<longrightarrow> move instr \<noteq> HeadMove_none)"
  using assms
proof (induction inp arbitrary: st data token state)
  case Nil
  then have "st' = st" and f: "parse_finish state token data = Inr r"
    by (auto split: sum.splits)
  have "symtable_insert_all st [] = Inr st" by simp
  with \<open>st' = st\<close> parse_finish_Some [OF Nil.prems(1)] f show ?case
    by (metis empty_iff list.set(1))
next
  case (Cons c cs)
  show ?case
  proof (cases "state < 100")
    case False
    with Cons.prems(2) have "st' = st" and f: "parse_finish state token data = Inr r"
      by (auto split: sum.splits)
    have "symtable_insert_all st [] = Inr st" by simp
    with \<open>st' = st\<close> parse_finish_Some [OF Cons.prems(1)] f show ?thesis
      by (metis empty_iff list.set(1))
  next
    case True
    with Cons.prems(2) obtain s1 t1 d1 st1 where
      pc: "parse_char sp state c token data st = PCont s1 t1 d1 st1"
      and pl: "parse_loop sp cs st1 d1 t1 s1 = Inr (rest, st', r)"
      by (auto split: parse_step.splits)
    from parse_char_PCont [OF Cons.prems(1) pc]
    have inv: "parse_inv s1 t1 d1"
      and st1: "st1 = st \<or> (\<exists>x i. length x \<le> MILL_STATE_MAX \<and> symtable_insert st x = Inr (st1, i))"
      by auto
    from Cons.IH [OF inv pl] obtain names where
      names: "\<forall>x\<in>set names. length x \<le> MILL_STATE_MAX" "symtable_insert_all st1 names = Inr st'"
      and mv: "\<forall>instr. r = Some instr \<longrightarrow> move instr \<noteq> HeadMove_none"
      by auto
    from st1 show ?thesis
    proof
      assume "st1 = st"
      with names mv show ?thesis by auto
    next
      assume "\<exists>x i. length x \<le> MILL_STATE_MAX \<and> symtable_insert st x = Inr (st1, i)"
      then obtain x i where x: "length x \<le> MILL_STATE_MAX" "symtable_insert st x = Inr (st1, i)"
        by auto
      with names have "\<forall>y\<in>set (x # names). length y \<le> MILL_STATE_MAX"
        and "symtable_insert_all st (x # names) = Inr st'"
        by auto
      with mv show ?thesis by blast
    qed
  qed
qed

lemma parse_loop_Inl:
  assumes "parse_inv state token data"
    and "parse_loop sp inp st data token state = Inl e"
  shows "\<not> symtable_error e
         \<or> (\<exists>names st1 x. (\<forall>y\<in>set names. length y \<le> MILL_STATE_MAX)
               \<and> symtable_insert_all st names = Inr st1
               \<and> length x \<le> MILL_STATE_MAX \<and> symtable_insert st1 x = Inl e)"
  using assms
proof (induction inp arbitrary: st data token state)
  case Nil
  then have "parse_finish state token data = Inl e" by (auto split: sum.splits)
  from parse_finish_Inl [OF this] show ?case by simp
next
  case (Cons c cs)
  show ?case
  proof (cases "state < 100")
    case False
    with Cons.prems(2) have "parse_finish state token data = Inl e" by (auto split: sum.splits)
    from parse_finish_Inl [OF this] show ?thesis by simp
  next
    case True
    show ?thesis
    proof (cases "parse_char sp state c token data st")
      case (PErr e')
      with True Cons.prems(2) have "e' = e" by simp
      with parse_char_PErr [OF Cons.prems(1)] PErr
      have "\<not> symtable_error e \<or> (\<exists>x. length x \<le> MILL_STATE_MAX \<and> symtable_insert st x = Inl e)"
        by simp
      moreover have "symtable_insert_all st [] = Inr st" by simp
      ultimately show ?thesis by (metis empty_iff list.set(1))
    next
      case (PCont s1 t1 d1 st1)
      with True Cons.prems(2) have pl: "parse_loop sp cs st1 d1 t1 s1 = Inl e" by simp
      from parse_char_PCont [OF Cons.prems(1) PCont]
      have inv: "parse_inv s1 t1 d1"
        and st1: "st1 = st \<or> (\<exists>x i. length x \<le> MILL_STATE_MAX \<and> symtable_insert st x = Inr (st1, i))"
        by auto
      from Cons.IH [OF inv pl] show ?thesis
      proof
        assume "\<not> symtable_error e" then show ?thesis by simp
      next
        assume "\<exists>names st2 x. (\<forall>y\<in>set names. length y \<le> MILL_STATE_MAX)
               \<and> symtable_insert_all st1 names = Inr st2
               \<and> length x \<le> MILL_STATE_MAX \<and> symtable_insert st2 x = Inl e"
        then obtain names st2 x where
          n: "\<forall>y\<in>set names. length y \<le> MILL_STATE_MAX" "symtable_insert_all st1 names = Inr st2"
            "length x \<le> MILL_STATE_MAX" "symtable_insert st2 x = Inl e"
          by auto
        from st1 show ?thesis
        proof
          assume "st1 = st"
          with n show ?thesis by blast
        next
          assume "\<exists>x i. length x \<le> MILL_STATE_MAX \<and> symtable_insert st x = Inr (st1, i)"
          then obtain z i where z: "length z \<le> MILL_STATE_MAX" "symtable_insert st z = Inr (st1, i)"
            by auto
          with n have "\<forall>y\<in>set (z # names). length y \<le> MILL_STATE_MAX"
            and "symtable_insert_all st (z # names) = Inr st2"
            by auto
          with n(3,4) show ?thesis by blast
        qed
      qed
    qed
  qed
qed

lemma parse_inv_start: "parse_inv 0 [] MillInstr_zero"
  by (simp add: parse_inv_def)

lemma mill_parse_program_loop_Inr:
  assumes "mill_parse_program_loop sp inp prog = Inr prog'"
  shows "(\<exists>names. (\<forall>x\<in>set names. length x \<le> MILL_STATE_MAX)
            \<and> symtable_insert_all (symtable prog) names = Inr (symtable prog'))
         \<and> syminit prog' = syminit prog \<and> symhalt prog' = symhalt prog
         \<and> ((\<forall>instr\<in>set (instructions prog). move instr \<noteq> HeadMove_none)
              \<longrightarrow> (\<forall>instr\<in>set (instructions prog'). move instr \<noteq> HeadMove_none))"
  using assms
proof (induction sp inp prog rule: mill_parse_program_loop.induct)
  case (1 sp inp prog)
  note unf = mill_parse_program_loop.simps [of sp inp prog]
  from "1.prems" obtain rest st1 r where
    pi: "mill_parse_instruction sp inp (symtable prog) = Inr (rest, st1, r)"
    by (auto simp: unf split: sum.splits)
  from parse_loop_Inr [OF parse_inv_start pi [unfolded mill_parse_instruction_def]]
  obtain names1 where
    n1: "\<forall>x\<in>set names1. length x \<le> MILL_STATE_MAX"
      "symtable_insert_all (symtable prog) names1 = Inr st1"
    and mv: "\<forall>instr. r = Some instr \<longrightarrow> move instr \<noteq> HeadMove_none"
    by auto
  show ?case
  proof (cases r)
    case None
    with pi "1.prems" have eq: "prog' = prog\<lparr>symtable := st1\<rparr>"
      by (simp add: unf)
    with n1 have "(\<forall>x\<in>set names1. length x \<le> MILL_STATE_MAX)
        \<and> symtable_insert_all (symtable prog) names1 = Inr (symtable prog')"
      by simp
    then have c: "\<exists>names. (\<forall>x\<in>set names. length x \<le> MILL_STATE_MAX)
        \<and> symtable_insert_all (symtable prog) names = Inr (symtable prog')"
      by blast
    from eq have ids: "syminit prog' = syminit prog" "symhalt prog' = symhalt prog"
      by simp_all
    from eq have same: "instructions prog' = instructions prog"
      by simp
    have d: "(\<forall>instr\<in>set (instructions prog). move instr \<noteq> HeadMove_none)
              \<longrightarrow> (\<forall>instr\<in>set (instructions prog'). move instr \<noteq> HeadMove_none)"
      unfolding same by (rule impI)
    show ?thesis by (rule conjI [OF c conjI [OF ids(1) conjI [OF ids(2) d]]])
  next
    case (Some instr)
    let ?prog1 = "prog\<lparr>symtable := st1, instructions := instructions prog @ [instr]\<rparr>"
    from Some pi "1.prems" have lim: "\<not> MILL_INSTR_MAX \<le> length (instructions prog)"
      and rec: "mill_parse_program_loop sp rest ?prog1 = Inr prog'"
      by (simp_all add: unf split: if_splits)
    have ih: "(\<exists>names. (\<forall>x\<in>set names. length x \<le> MILL_STATE_MAX)
            \<and> symtable_insert_all (symtable ?prog1) names = Inr (symtable prog'))
         \<and> syminit prog' = syminit ?prog1 \<and> symhalt prog' = symhalt ?prog1
         \<and> ((\<forall>instr\<in>set (instructions ?prog1). move instr \<noteq> HeadMove_none)
              \<longrightarrow> (\<forall>instr\<in>set (instructions prog'). move instr \<noteq> HeadMove_none))"
      by (rule "1.IH" [OF pi refl refl Some lim rec])
    note ih1 = ih [THEN conjunct1]
    note ih2 = ih [THEN conjunct2, THEN conjunct1]
    note ih3 = ih [THEN conjunct2, THEN conjunct2, THEN conjunct1]
    note ih4 = ih [THEN conjunct2, THEN conjunct2, THEN conjunct2]
    from ih1 obtain names2 where
      n2: "\<forall>x\<in>set names2. length x \<le> MILL_STATE_MAX"
        "symtable_insert_all (symtable ?prog1) names2 = Inr (symtable prog')"
      by blast
    from n2(2) have n2': "symtable_insert_all st1 names2 = Inr (symtable prog')"
      by simp
    from ih2 have id1: "syminit prog' = syminit prog" by simp
    from ih3 have id2: "symhalt prog' = symhalt prog" by simp
    from n1(1) n2(1) have a: "\<forall>x\<in>set (names1 @ names2). length x \<le> MILL_STATE_MAX"
      by auto
    from n1(2) n2' have b: "symtable_insert_all (symtable prog) (names1 @ names2)
        = Inr (symtable prog')"
      by (simp add: symtable_insert_all_append)
    from a b have c: "\<exists>names. (\<forall>x\<in>set names. length x \<le> MILL_STATE_MAX)
            \<and> symtable_insert_all (symtable prog) names = Inr (symtable prog')"
      by blast
    from mv Some have new: "move instr \<noteq> HeadMove_none" by simp
    have d: "(\<forall>i\<in>set (instructions prog). move i \<noteq> HeadMove_none)
              \<longrightarrow> (\<forall>i\<in>set (instructions prog'). move i \<noteq> HeadMove_none)"
    proof
      assume "\<forall>i\<in>set (instructions prog). move i \<noteq> HeadMove_none"
      with new have "\<forall>i\<in>set (instructions ?prog1). move i \<noteq> HeadMove_none"
        by simp
      with ih4 show "\<forall>i\<in>set (instructions prog'). move i \<noteq> HeadMove_none"
        by (rule mp)
    qed
    show ?thesis by (rule conjI [OF c conjI [OF id1 conjI [OF id2 d]]])
  qed
qed

lemma mill_parse_program_loop_Inl:
  assumes "mill_parse_program_loop sp inp prog = Inl e"
  shows "\<not> symtable_error e
         \<or> (\<exists>names st1 x. (\<forall>y\<in>set names. length y \<le> MILL_STATE_MAX)
               \<and> symtable_insert_all (symtable prog) names = Inr st1
               \<and> length x \<le> MILL_STATE_MAX \<and> symtable_insert st1 x = Inl e)"
  using assms
proof (induction sp inp prog rule: mill_parse_program_loop.induct)
  case (1 sp inp prog)
  note unf = mill_parse_program_loop.simps [of sp inp prog]
  show ?case
  proof (cases "mill_parse_instruction sp inp (symtable prog)")
    case (Inl e')
    with "1.prems" have "e' = e"
      by (simp add: unf)
    with Inl have "parse_loop sp inp (symtable prog) MillInstr_zero [] 0 = Inl e"
      by (simp add: mill_parse_instruction_def)
    from parse_loop_Inl [OF parse_inv_start this] show ?thesis .
  next
    case (Inr res)
    obtain rest st1 r where res: "res = (rest, st1, r)" by (cases res) auto
    with Inr have pi: "mill_parse_instruction sp inp (symtable prog) = Inr (rest, st1, r)"
      by simp
    from parse_loop_Inr [OF parse_inv_start pi [unfolded mill_parse_instruction_def]]
    obtain names1 where
      n1: "\<forall>x\<in>set names1. length x \<le> MILL_STATE_MAX"
        "symtable_insert_all (symtable prog) names1 = Inr st1"
      by auto
    show ?thesis
    proof (cases r)
      case None
      with pi "1.prems" show ?thesis
        by (simp add: unf)
    next
      case (Some instr)
      let ?prog1 = "prog\<lparr>symtable := st1, instructions := instructions prog @ [instr]\<rparr>"
      show ?thesis
      proof (cases "MILL_INSTR_MAX \<le> length (instructions prog)")
        case True
        with Some pi "1.prems" have "e = TooManyInstructions"
          by (simp add: unf)
        then show ?thesis by (simp add: symtable_error_def)
      next
        case False
        with Some pi "1.prems" have rec: "mill_parse_program_loop sp rest ?prog1 = Inl e"
          by (simp add: unf)
        from "1.IH" [OF pi refl refl Some False rec] show ?thesis
        proof
          assume "\<not> symtable_error e" then show ?thesis by simp
        next
          assume "\<exists>names st2 x. (\<forall>y\<in>set names. length y \<le> MILL_STATE_MAX)
               \<and> symtable_insert_all (symtable ?prog1) names = Inr st2
               \<and> length x \<le> MILL_STATE_MAX \<and> symtable_insert st2 x = Inl e"
          then obtain names2 st2 x where
            n2: "\<forall>y\<in>set names2. length y \<le> MILL_STATE_MAX"
              "symtable_insert_all st1 names2 = Inr st2"
              "length x \<le> MILL_STATE_MAX" "symtable_insert st2 x = Inl e"
            by auto
          from n1 n2 have "\<forall>y\<in>set (names1 @ names2). length y \<le> MILL_STATE_MAX"
            and "symtable_insert_all (symtable prog) (names1 @ names2) = Inr st2"
            by (auto simp: symtable_insert_all_append)
          with n2(3,4) show ?thesis by blast
        qed
      qed
    qed
  qed
qed

lemma symtable_find_Some:
  "symtable_find syms x i = Some k \<Longrightarrow>
     i \<le> k \<and> k < length syms \<and> wcscmp0 (syms ! k) x
     \<and> (\<forall>j. i \<le> j \<and> j < k \<longrightarrow> \<not> wcscmp0 (syms ! j) x)"
proof (induction syms x i rule: symtable_find.induct)
  case (1 syms x i)
  note unf = symtable_find.simps [of syms x i]
  show ?case
  proof (cases "i < length syms")
    case False
    with "1.prems" show ?thesis by (simp add: unf)
  next
    case True
    show ?thesis
    proof (cases "wcscmp0 (syms ! i) x")
      case m: True
      with True "1.prems" have "k = i" by (simp add: unf)
      with True m show ?thesis by auto
    next
      case m: False
      with True "1.prems" have "symtable_find syms x (i + 1) = Some k" by (simp add: unf)
      from "1.IH" [OF True m this]
      have k: "i + 1 \<le> k" "k < length syms" "wcscmp0 (syms ! k) x"
        and e: "\<forall>j. i + 1 \<le> j \<and> j < k \<longrightarrow> \<not> wcscmp0 (syms ! j) x"
        by auto
      have "\<not> wcscmp0 (syms ! j) x" if "i \<le> j" "j < k" for j
      proof (cases "j = i")
        case True
        with m show ?thesis by simp
      next
        case False
        with that e show ?thesis by simp
      qed
      with k show ?thesis by simp
    qed
  qed
qed

lemma symtable_find_None:
  "symtable_find syms x i = None \<Longrightarrow>
     (\<forall>j. i \<le> j \<and> j < length syms \<longrightarrow> \<not> wcscmp0 (syms ! j) x)"
proof (induction syms x i rule: symtable_find.induct)
  case (1 syms x i)
  note unf = symtable_find.simps [of syms x i]
  show ?case
  proof (cases "i < length syms")
    case False
    then show ?thesis by auto
  next
    case True
    with "1.prems" have m: "\<not> wcscmp0 (syms ! i) x"
      and r: "symtable_find syms x (i + 1) = None"
      by (simp_all add: unf split: if_splits)
    from "1.IH" [OF True m r]
    have e: "\<forall>j. i + 1 \<le> j \<and> j < length syms \<longrightarrow> \<not> wcscmp0 (syms ! j) x" .
    have "\<not> wcscmp0 (syms ! j) x" if "i \<le> j" "j < length syms" for j
    proof (cases "j = i")
      case True
      with m show ?thesis by simp
    next
      case False
      with that e show ?thesis by simp
    qed
    then show ?thesis by simp
  qed
qed

lemma symtable_find_first:
  assumes "k < length syms" and "wcscmp0 (syms ! k) x"
    and "\<forall>j<k. \<not> wcscmp0 (syms ! j) x"
  shows "symtable_find syms x 0 = Some k"
proof (cases "symtable_find syms x 0")
  case None
  from symtable_find_None [OF this] assms(1,2) show ?thesis by simp
next
  case (Some k')
  from symtable_find_Some [OF this]
  have k': "k' < length syms" "wcscmp0 (syms ! k') x" "\<forall>j<k'. \<not> wcscmp0 (syms ! j) x"
    by auto
  from k'(2) assms(3) have "\<not> k' < k" by blast
  moreover from assms(2) k'(3) have "\<not> k < k'" by blast
  ultimately have "k' = k" by simp
  with Some show ?thesis by simp
qed

text \<open>The two ways in which an insertion succeeds.\<close>

lemma symtable_insert_Inr:
  assumes "symtable_insert st x = Inr (st', i)"
  shows "(st' = st \<and> symtable_find (symbols st) x 0 = Some i)
         \<or> (symtable_find (symbols st) x 0 = None
             \<and> st' = st\<lparr>symbols := symbols st @ [wcs x],
                        datasize := datasize st + (wcslen x + 1)\<rparr>
             \<and> i = length (symbols st)
             \<and> length (symbols st) < MILL_STATES_MAX
             \<and> datasize st + (wcslen x + 1) \<le> MILL_STATES_MAX * (MILL_STATE_MAX + 1))"
  using assms
  by (auto simp: symtable_insert_def Let_def split: option.splits if_splits)

lemma wcs_wcs: "wcs (wcs x) = wcs x"
  by (simp add: wcs_def)

lemma symtable_insert_found:
  assumes "symtable_insert st x = Inr (st', i)"
  shows "symtable_find (symbols st') x 0 = Some i"
  using symtable_insert_Inr [OF assms]
proof
  assume "st' = st \<and> symtable_find (symbols st) x 0 = Some i"
  then show ?thesis by simp
next
  assume a: "symtable_find (symbols st) x 0 = None
             \<and> st' = st\<lparr>symbols := symbols st @ [wcs x],
                        datasize := datasize st + (wcslen x + 1)\<rparr>
             \<and> i = length (symbols st)
             \<and> length (symbols st) < MILL_STATES_MAX
             \<and> datasize st + (wcslen x + 1) \<le> MILL_STATES_MAX * (MILL_STATE_MAX + 1)"
  then have sy: "symbols st' = symbols st @ [wcs x]" and i: "i = length (symbols st)"
    by simp_all
  from a have "symtable_find (symbols st) x 0 = None" by simp
  from symtable_find_None [OF this]
  have no: "\<forall>j<length (symbols st). \<not> wcscmp0 (symbols st ! j) x" by simp
  show ?thesis
  proof (rule symtable_find_first)
    show "i < length (symbols st')" using sy i by simp
    show "wcscmp0 (symbols st' ! i) x" using sy i by (simp add: wcscmp0_def wcs_wcs)
    show "\<forall>j<i. \<not> wcscmp0 (symbols st' ! j) x" using sy i no by (simp add: nth_append)
  qed
qed

lemma symtable_find_insert:
  assumes "symtable_find (symbols st) x 0 = Some i"
  shows "symtable_insert st x = Inr (st, i)"
  using assms by (simp add: symtable_insert_def)

text \<open>A name that is in the table keeps its id when other names are inserted.\<close>

lemma symtable_find_kept:
  assumes "symtable_find (symbols st) x 0 = Some i"
    and "symtable_insert st y = Inr (st', j)"
  shows "symtable_find (symbols st') x 0 = Some i"
  using symtable_insert_Inr [OF assms(2)]
proof
  assume "st' = st \<and> symtable_find (symbols st) y 0 = Some j"
  with assms(1) show ?thesis by simp
next
  assume a: "symtable_find (symbols st) y 0 = None
             \<and> st' = st\<lparr>symbols := symbols st @ [wcs y],
                        datasize := datasize st + (wcslen y + 1)\<rparr>
             \<and> j = length (symbols st)
             \<and> length (symbols st) < MILL_STATES_MAX
             \<and> datasize st + (wcslen y + 1) \<le> MILL_STATES_MAX * (MILL_STATE_MAX + 1)"
  then have sy: "symbols st' = symbols st @ [wcs y]" by simp
  from symtable_find_Some [OF assms(1)]
  have i: "i < length (symbols st)" "wcscmp0 (symbols st ! i) x"
    "\<forall>k<i. \<not> wcscmp0 (symbols st ! k) x"
    by auto
  show ?thesis
  proof (rule symtable_find_first)
    show "i < length (symbols st')" using sy i(1) by simp
    show "wcscmp0 (symbols st' ! i) x" using sy i(1,2) by (simp add: nth_append)
    show "\<forall>k<i. \<not> wcscmp0 (symbols st' ! k) x" using sy i(1,3) by (simp add: nth_append)
  qed
qed

lemma symtable_find_kept_all:
  assumes "symtable_find (symbols st) x 0 = Some i"
    and "symtable_insert_all st names = Inr st'"
  shows "symtable_find (symbols st') x 0 = Some i"
  using assms
proof (induction names arbitrary: st)
  case Nil
  then show ?case by simp
next
  case (Cons y names)
  from Cons.prems(2) obtain st1 j where
    y: "symtable_insert st y = Inr (st1, j)" and r: "symtable_insert_all st1 names = Inr st'"
    by (auto split: sum.splits)
  from Cons.IH [OF symtable_find_kept [OF Cons.prems(1) y] r] show ?case .
qed

subsection \<open>Room in the symbol buffer\<close>

lemma wcslen_le: "wcslen x \<le> length x"
  by (simp add: wcslen_def wcs_def length_takeWhile_le)

lemma symtable_insert_datasize:
  assumes "datasize_ok st" and "wcslen x \<le> MILL_STATE_MAX"
    and "symtable_insert st x = Inr (st', i)"
  shows "datasize_ok st'"
  using symtable_insert_Inr [OF assms(3)] assms(1,2)
  by (auto simp: datasize_ok_def)

lemma symtable_insert_room:
  assumes "datasize_ok st" and "wcslen x \<le> MILL_STATE_MAX"
    and "symtable_insert st x = Inl e"
  shows "e = SymbolTableLimit \<and> MILL_STATES_MAX \<le> length (symbols st)"
proof (cases "MILL_STATES_MAX \<le> length (symbols st)")
  case True
  with assms(3) show ?thesis
    by (auto simp: symtable_insert_def Let_def split: option.splits if_splits)
next
  case False
  then have "length (symbols st) \<le> 1023" by (simp add: MILL_STATES_MAX_def)
  then have "33 * length (symbols st) \<le> 33 * 1023" by simp
  with assms(1,2) have "datasize st + (wcslen x + 1) \<le> 33792"
    by (simp add: datasize_ok_def MILL_STATE_MAX_def)
  with False assms(3) show ?thesis
    by (auto simp: symtable_insert_def Let_def MILL_STATES_MAX_def MILL_STATE_MAX_def
          split: option.splits if_splits)
qed

lemma symtable_insert_all_datasize:
  assumes "datasize_ok st" and "\<forall>x\<in>set names. wcslen x \<le> MILL_STATE_MAX"
    and "symtable_insert_all st names = Inr st'"
  shows "datasize_ok st'"
  using assms
proof (induction names arbitrary: st)
  case Nil
  then show ?case by simp
next
  case (Cons y names)
  from Cons.prems(3) obtain st1 j where
    y: "symtable_insert st y = Inr (st1, j)" and r: "symtable_insert_all st1 names = Inr st'"
    by (auto split: sum.splits)
  from Cons.prems(2) have ly: "wcslen y \<le> MILL_STATE_MAX"
    and rest: "\<forall>x\<in>set names. wcslen x \<le> MILL_STATE_MAX"
    by simp_all
  from Cons.IH [OF symtable_insert_datasize [OF Cons.prems(1) ly y] rest r] show ?case .
qed

lemma datasize_ok_zero: "datasize_ok SymTable_zero"
  by (simp add: datasize_ok_def SymTable_zero_def)

lemma datasize_ok_preinterned: "datasize_ok preinterned"
  by (simp add: datasize_ok_def preinterned_def MILL_STATE_MAX_def)

lemma short_names:
  assumes "\<forall>x\<in>set names. length x \<le> MILL_STATE_MAX"
  shows "\<forall>x\<in>set names. wcslen x \<le> MILL_STATE_MAX"
proof
  fix x assume "x \<in> set names"
  with assms have "length x \<le> MILL_STATE_MAX" by blast
  with wcslen_le [of x] show "wcslen x \<le> MILL_STATE_MAX" by simp
qed

lemma preinterned_insert_all:
  "symtable_insert_all SymTable_zero [wstr ''INIT'', wstr ''HALT''] = Inr preinterned"
  by (simp add: preintern_INIT preintern_HALT)

lemma mill_parse_program_not_exhausted:
  "mill_parse_program sp inp \<noteq> Inl SymbolsBufferExhausted"
proof
  assume "mill_parse_program sp inp = Inl SymbolsBufferExhausted"
  then have "mill_parse_program_loop sp inp
       \<lparr>symtable = preinterned, syminit = 0, symhalt = 1, instructions = []\<rparr>
       = Inl SymbolsBufferExhausted"
    by (simp add: mill_parse_program_preinterned)
  from mill_parse_program_loop_Inl [OF this]
  obtain names st1 x where
    n: "\<forall>y\<in>set names. length y \<le> MILL_STATE_MAX"
      "symtable_insert_all preinterned names = Inr st1"
      "length x \<le> MILL_STATE_MAX" "symtable_insert st1 x = Inl SymbolsBufferExhausted"
    by (auto simp: symtable_error_def)
  from symtable_insert_all_datasize [OF datasize_ok_preinterned short_names [OF n(1)] n(2)]
  have ok: "datasize_ok st1" .
  from n(3) wcslen_le [of x] have "wcslen x \<le> MILL_STATE_MAX" by simp
  from symtable_insert_room [OF ok this n(4)] show False by simp
qed

lemma mill_parse_program_names:
  assumes "mill_parse_program sp inp = Inr prog"
  shows "\<exists>names. (\<forall>x\<in>set names. length x \<le> MILL_STATE_MAX)
           \<and> symtable_insert_all SymTable_zero names = Inr (symtable prog)"
proof -
  from assms have "mill_parse_program_loop sp inp
       \<lparr>symtable = preinterned, syminit = 0, symhalt = 1, instructions = []\<rparr> = Inr prog"
    by (simp add: mill_parse_program_preinterned)
  from mill_parse_program_loop_Inr [OF this, THEN conjunct1]
  obtain names where n: "\<forall>x\<in>set names. length x \<le> MILL_STATE_MAX"
      "symtable_insert_all preinterned names = Inr (symtable prog)"
    by auto
  let ?all = "[wstr ''INIT'', wstr ''HALT''] @ names"
  from n(1) have "\<forall>x\<in>set ?all. length x \<le> MILL_STATE_MAX"
    by (simp add: wstr_def MILL_STATE_MAX_def)
  moreover from n(2) have "symtable_insert_all SymTable_zero ?all = Inr (symtable prog)"
    unfolding symtable_insert_all_append preinterned_insert_all by simp
  ultimately show ?thesis by blast
qed

text \<open>
  C10. The branch "symbols buffer exhausted" is never taken. In a table built from the
  empty one by inserting names of at most 32 characters, the data size is at most 33
  times the number of names; inserting one more such name does not fail with
  \<open>SymbolsBufferExhausted\<close>, and if it fails at all then with \<open>SymbolTableLimit\<close>, the
  table holding 1024 names. The parser builds its table in this way (from \<open>INIT\<close>,
  \<open>HALT\<close> and tokens that the length check keeps to 32 characters), and parsing a
  program never fails with \<open>SymbolsBufferExhausted\<close>.
\<close>

theorem symbols_buffer_never_exhausted:
  "((\<forall>x\<in>set names. wcslen x \<le> MILL_STATE_MAX)
      \<and> symtable_insert_all SymTable_zero names = Inr st
      \<and> wcslen name \<le> MILL_STATE_MAX \<longrightarrow>
        datasize st \<le> (MILL_STATE_MAX + 1) * length (symbols st)
        \<and> symtable_insert st name \<noteq> Inl SymbolsBufferExhausted
        \<and> (\<forall>e. symtable_insert st name = Inl e \<longrightarrow>
              e = SymbolTableLimit \<and> MILL_STATES_MAX \<le> length (symbols st)))
   \<and> mill_parse_program sp inp \<noteq> Inl SymbolsBufferExhausted
   \<and> (mill_parse_program sp inp = Inr prog \<longrightarrow>
        (\<exists>names'. (\<forall>x\<in>set names'. length x \<le> MILL_STATE_MAX)
            \<and> symtable_insert_all SymTable_zero names' = Inr (symtable prog)))"
proof (intro conjI impI)
  assume a: "(\<forall>x\<in>set names. wcslen x \<le> MILL_STATE_MAX)
      \<and> symtable_insert_all SymTable_zero names = Inr st
      \<and> wcslen name \<le> MILL_STATE_MAX"
  then have ok: "datasize_ok st"
    using symtable_insert_all_datasize [OF datasize_ok_zero, of names st] by blast
  then show "datasize st \<le> (MILL_STATE_MAX + 1) * length (symbols st)"
    by (simp add: datasize_ok_def)
  from a have n: "wcslen name \<le> MILL_STATE_MAX" by simp
  show "symtable_insert st name \<noteq> Inl SymbolsBufferExhausted"
    using symtable_insert_room [OF ok n, of SymbolsBufferExhausted] by auto
  show "\<forall>e. symtable_insert st name = Inl e \<longrightarrow>
              e = SymbolTableLimit \<and> MILL_STATES_MAX \<le> length (symbols st)"
    using symtable_insert_room [OF ok n] by blast
next
  show "mill_parse_program sp inp \<noteq> Inl SymbolsBufferExhausted"
    by (rule mill_parse_program_not_exhausted)
next
  assume "mill_parse_program sp inp = Inr prog"
  then show "\<exists>names'. (\<forall>x\<in>set names'. length x \<le> MILL_STATE_MAX)
            \<and> symtable_insert_all SymTable_zero names' = Inr (symtable prog)"
    by (rule mill_parse_program_names)
qed

theorem symbols_buffer_never_exhausted_witness:
  "wcslen (wstr ''INIT'') \<le> MILL_STATE_MAX \<and> wcslen (wstr ''HALT'') \<le> MILL_STATE_MAX
   \<and> symtable_insert_all SymTable_zero [wstr ''INIT'', wstr ''HALT''] = Inr preinterned
   \<and> wcslen (wstr ''A'') \<le> MILL_STATE_MAX
   \<and> datasize preinterned = 10 \<and> length (symbols preinterned) = 2
   \<and> symtable_insert preinterned (wstr ''A'')
        = Inr (\<lparr>symbols = [wstr ''INIT'', wstr ''HALT'', wstr ''A''], datasize = 12\<rparr>, 2)
   \<and> symtable_insert preinterned (wstr ''A'') \<noteq> Inl SymbolsBufferExhausted
   \<and> mill_parse_program iswspace_C (wstr ''INIT a HALT b R'') = Inr scenario1_prog
   \<and> mill_parse_program iswspace_C (wstr ''INIT a HALT b R'') \<noteq> Inl SymbolsBufferExhausted"
proof -
  have len: "wcslen (wstr ''INIT'') \<le> MILL_STATE_MAX" "wcslen (wstr ''HALT'') \<le> MILL_STATE_MAX"
    "wcslen (wstr ''A'') \<le> MILL_STATE_MAX"
    by (simp_all add: wstr_def wcs_simps mill_consts)
  then have h: "(\<forall>x\<in>set [wstr ''INIT'', wstr ''HALT'']. wcslen x \<le> MILL_STATE_MAX)
      \<and> symtable_insert_all SymTable_zero [wstr ''INIT'', wstr ''HALT''] = Inr preinterned
      \<and> wcslen (wstr ''A'') \<le> MILL_STATE_MAX"
    by (simp add: preintern_INIT preintern_HALT)
  note t = symbols_buffer_never_exhausted
    [of "[wstr ''INIT'', wstr ''HALT'']" preinterned "wstr ''A''" iswspace_C
      "wstr ''INIT a HALT b R''" scenario1_prog]
  from t [THEN conjunct1, THEN mp, OF h]
  have a: "symtable_insert preinterned (wstr ''A'') \<noteq> Inl SymbolsBufferExhausted"
    by (rule conjunct1 [OF conjunct2])
  from t [THEN conjunct2, THEN conjunct1]
  have b: "mill_parse_program iswspace_C (wstr ''INIT a HALT b R'') \<noteq> Inl SymbolsBufferExhausted" .
  have c: "symtable_insert preinterned (wstr ''A'')
        = Inr (\<lparr>symbols = [wstr ''INIT'', wstr ''HALT'', wstr ''A''], datasize = 12\<rparr>, 2)"
    by (simp add: symtable_insert_def symtable_find.simps preinterned_def wstr_def wcs_simps
        mill_consts)
  have d: "datasize preinterned = 10" "length (symbols preinterned) = 2"
    by (simp_all add: preinterned_def)
  from len a b c d show ?thesis
    by (simp add: preintern_INIT preintern_HALT scenario1_parse)
qed

subsection \<open>Interning\<close>

lemma preinterned_find:
  "symtable_find (symbols preinterned) (wstr ''INIT'') 0 = Some 0"
  "symtable_find (symbols preinterned) (wstr ''HALT'') 0 = Some 1"
  by (simp_all add: symtable_find.simps preinterned_def wstr_def wcs_simps)

lemma mill_parse_program_reserved:
  assumes "mill_parse_program sp inp = Inr prog"
  shows "syminit prog = 0 \<and> symhalt prog = 1
         \<and> symtable_insert (symtable prog) (wstr ''INIT'') = Inr (symtable prog, 0)
         \<and> symtable_insert (symtable prog) (wstr ''HALT'') = Inr (symtable prog, 1)"
proof -
  from assms have loop: "mill_parse_program_loop sp inp
       \<lparr>symtable = preinterned, syminit = 0, symhalt = 1, instructions = []\<rparr> = Inr prog"
    by (simp add: mill_parse_program_preinterned)
  note r = mill_parse_program_loop_Inr [OF loop]
  from r [THEN conjunct1]
  obtain names where n: "symtable_insert_all preinterned names = Inr (symtable prog)"
    by auto
  from r [THEN conjunct2, THEN conjunct1] have i: "syminit prog = 0" by simp
  from r [THEN conjunct2, THEN conjunct2, THEN conjunct1] have h: "symhalt prog = 1" by simp
  from symtable_find_kept_all [OF preinterned_find(1) n]
  have a: "symtable_insert (symtable prog) (wstr ''INIT'') = Inr (symtable prog, 0)"
    by (rule symtable_find_insert)
  from symtable_find_kept_all [OF preinterned_find(2) n]
  have b: "symtable_insert (symtable prog) (wstr ''HALT'') = Inr (symtable prog, 1)"
    by (rule symtable_find_insert)
  from i h a b show ?thesis by simp
qed

text \<open>
  C7. Interning. An insertion that returned the id \<open>i\<close> for a name returns \<open>i\<close> again,
  with the table unchanged, when the name is inserted into the resulting table, also
  after any further insertions. \<^verbatim>\<open>mill_parse_program\<close> starts its loop with \<open>INIT\<close> and
  \<open>HALT\<close> in the table under the ids 0 and 1; and whatever program text was parsed, the
  program has \<open>syminit = 0\<close> and \<open>symhalt = 1\<close>, and inserting \<open>INIT\<close> or \<open>HALT\<close> into
  its table returns 0 or 1.
\<close>

theorem interning_idempotent:
  "(symtable_insert st name = Inr (st', i) \<longrightarrow> symtable_insert st' name = Inr (st', i))
   \<and> (symtable_insert st name = Inr (st', i) \<and> symtable_insert_all st' names = Inr st''
        \<longrightarrow> symtable_insert st'' name = Inr (st'', i))
   \<and> mill_parse_program sp inp
        = mill_parse_program_loop sp inp
            \<lparr>symtable = preinterned, syminit = 0, symhalt = 1, instructions = []\<rparr>
   \<and> symtable_insert preinterned (wstr ''INIT'') = Inr (preinterned, 0)
   \<and> symtable_insert preinterned (wstr ''HALT'') = Inr (preinterned, 1)
   \<and> (mill_parse_program sp inp = Inr prog \<longrightarrow>
        syminit prog = 0 \<and> symhalt prog = 1
        \<and> symtable_insert (symtable prog) (wstr ''INIT'') = Inr (symtable prog, 0)
        \<and> symtable_insert (symtable prog) (wstr ''HALT'') = Inr (symtable prog, 1))"
proof (intro conjI impI)
  assume "symtable_insert st name = Inr (st', i)"
  from symtable_insert_found [OF this]
  show "symtable_insert st' name = Inr (st', i)" by (rule symtable_find_insert)
next
  assume a: "symtable_insert st name = Inr (st', i) \<and> symtable_insert_all st' names = Inr st''"
  then have "symtable_find (symbols st') name 0 = Some i"
    using symtable_insert_found [of st name st' i] by blast
  from symtable_find_kept_all [OF this] a
  have "symtable_find (symbols st'') name 0 = Some i" by blast
  then show "symtable_insert st'' name = Inr (st'', i)" by (rule symtable_find_insert)
next
  show "mill_parse_program sp inp
        = mill_parse_program_loop sp inp
            \<lparr>symtable = preinterned, syminit = 0, symhalt = 1, instructions = []\<rparr>"
    by (rule mill_parse_program_preinterned)
next
  show "symtable_insert preinterned (wstr ''INIT'') = Inr (preinterned, 0)"
    by (rule symtable_find_insert [OF preinterned_find(1)])
next
  show "symtable_insert preinterned (wstr ''HALT'') = Inr (preinterned, 1)"
    by (rule symtable_find_insert [OF preinterned_find(2)])
next
  assume p: "mill_parse_program sp inp = Inr prog"
  note r = mill_parse_program_reserved [OF p]
  show "syminit prog = 0" by (rule r [THEN conjunct1])
  show "symhalt prog = 1" by (rule r [THEN conjunct2, THEN conjunct1])
  show "symtable_insert (symtable prog) (wstr ''INIT'') = Inr (symtable prog, 0)"
    by (rule r [THEN conjunct2, THEN conjunct2, THEN conjunct1])
  show "symtable_insert (symtable prog) (wstr ''HALT'') = Inr (symtable prog, 1)"
    by (rule r [THEN conjunct2, THEN conjunct2, THEN conjunct2])
qed

lemma parse_one_line:
  assumes "mill_parse_instruction sp inp preinterned = Inr ([], st', Some instr)"
  shows "mill_parse_program sp inp
           = Inr \<lparr>symtable = st', syminit = 0, symhalt = 1, instructions = [instr]\<rparr>"
proof -
  have "mill_parse_program sp inp
          = mill_parse_program_loop sp []
              \<lparr>symtable = st', syminit = 0, symhalt = 1, instructions = [instr]\<rparr>"
    unfolding mill_parse_program_preinterned
    by (subst mill_parse_program_loop.simps) (simp add: assms MILL_INSTR_MAX_def)
  also have "\<dots> = Inr \<lparr>symtable = st', syminit = 0, symhalt = 1, instructions = [instr]\<rparr>"
    by (subst mill_parse_program_loop.simps) (simp add: parse_at_end)
  finally show ?thesis .
qed

text \<open>A program that names a new state first and \<open>INIT\<close> later, and never \<open>HALT\<close>.\<close>

definition later_init_prog :: MillProgram where
  "later_init_prog =
     \<lparr>symtable = \<lparr>symbols = [wstr ''INIT'', wstr ''HALT'', wstr ''A''], datasize = 12\<rparr>,
      syminit = 0, symhalt = 1,
      instructions =
        [\<lparr>state_in = 2, char_in = 98, state_out = 0, char_out = 99, move = HeadMove_left\<rparr>]\<rparr>"

lemma later_init_line:
  "mill_parse_instruction iswspace_C (wstr ''A b INIT c L'') preinterned
     = Inr ([], \<lparr>symbols = [wstr ''INIT'', wstr ''HALT'', wstr ''A''], datasize = 12\<rparr>,
         Some \<lparr>state_in = 2, char_in = 98, state_out = 0, char_out = 99, move = HeadMove_left\<rparr>)"
  by (simp add: parse_simps preinterned_def wstr_def iswspace_C_def wcs_simps mill_consts)

lemma later_init_parse:
  "mill_parse_program iswspace_C (wstr ''A b INIT c L'') = Inr later_init_prog"
  unfolding later_init_prog_def by (rule parse_one_line [OF later_init_line])

theorem interning_idempotent_witness:
  "symtable_insert SymTable_zero (wstr ''A'') = Inr (\<lparr>symbols = [wstr ''A''], datasize = 2\<rparr>, 0)
   \<and> symtable_insert \<lparr>symbols = [wstr ''A''], datasize = 2\<rparr> (wstr ''A'')
        = Inr (\<lparr>symbols = [wstr ''A''], datasize = 2\<rparr>, 0)
   \<and> mill_parse_program iswspace_C (wstr ''A b INIT c L'') = Inr later_init_prog
   \<and> symbols (symtable later_init_prog) = [wstr ''INIT'', wstr ''HALT'', wstr ''A'']
   \<and> syminit later_init_prog = 0 \<and> symhalt later_init_prog = 1
   \<and> symtable_insert (symtable later_init_prog) (wstr ''INIT'')
        = Inr (symtable later_init_prog, 0)
   \<and> symtable_insert (symtable later_init_prog) (wstr ''HALT'')
        = Inr (symtable later_init_prog, 1)"
proof -
  let ?st = "\<lparr>symbols = [wstr ''A''], datasize = 2\<rparr>"
  have a: "symtable_insert SymTable_zero (wstr ''A'') = Inr (?st, 0)"
    by (simp add: symtable_insert_def symtable_find.simps SymTable_zero_def wstr_def wcs_simps
        mill_consts)
  note t = interning_idempotent [of SymTable_zero "wstr ''A''" ?st 0 "[]" ?st iswspace_C
      "wstr ''A b INIT c L''" later_init_prog]
  from t [THEN conjunct1, THEN mp, OF a]
  have b: "symtable_insert ?st (wstr ''A'') = Inr (?st, 0)" .
  from t [THEN conjunct2, THEN conjunct2, THEN conjunct2, THEN conjunct2, THEN conjunct2,
      THEN mp, OF later_init_parse]
  have c: "syminit later_init_prog = 0 \<and> symhalt later_init_prog = 1
        \<and> symtable_insert (symtable later_init_prog) (wstr ''INIT'')
             = Inr (symtable later_init_prog, 0)
        \<and> symtable_insert (symtable later_init_prog) (wstr ''HALT'')
             = Inr (symtable later_init_prog, 1)" .
  have d: "symbols (symtable later_init_prog) = [wstr ''INIT'', wstr ''HALT'', wstr ''A'']"
    by (simp add: later_init_prog_def)
  from a b c d later_init_parse show ?thesis by simp
qed

subsection \<open>Head moves of parsed programs\<close>

lemma mill_run_pass_valid:
  assumes "\<forall>instr\<in>set (instructions prog). move instr \<noteq> HeadMove_none"
    and "mill_run_pass prog tape t p state = Inl (r, tape', n)"
  shows "r \<noteq> InvalidHeadMove"
proof (cases "first_match (instructions prog) state (buf tape p)")
  case None
  then have "mill_run_scan prog tape t p state (buf tape p) 0 = Fell tape p state"
    by (simp add: mill_run_scan_first_match)
  with assms(2) show ?thesis by (auto simp: mill_run_pass_def Let_def)
next
  case (Some k)
  from first_match_Some [OF Some] have "k < length (instructions prog)" by simp
  then have "instructions prog ! k \<in> set (instructions prog)" by (rule nth_mem)
  with assms(1) have mv: "move (instructions prog ! k) \<noteq> HeadMove_none" by blast
  from Some have "mill_run_scan prog tape t p state (buf tape p) 0
      = mill_run_apply prog tape t p (instructions prog ! k)"
    by (simp add: mill_run_scan_first_match)
  with assms(2) mv show ?thesis
    by (cases "move (instructions prog ! k)")
       (auto simp: mill_run_pass_def mill_run_apply_def mill_run_moved_def Let_def
          split: if_splits)
qed

lemma mill_run_loop_valid:
  assumes "\<forall>instr\<in>set (instructions prog). move instr \<noteq> HeadMove_none"
  shows "fst (mill_run_loop prog tape t p state) \<noteq> InvalidHeadMove"
  using assms
proof (induction prog tape t p state rule: mill_run_loop.induct)
  case (1 prog tape t p state)
  note unf = mill_run_loop.simps [of prog tape t p state]
  show ?case
  proof (cases "t < MILL_STEPS_MAX")
    case False
    then show ?thesis by (simp add: unf)
  next
    case True
    show ?thesis
    proof (cases "mill_run_pass prog tape t p state")
      case (Inl res)
      obtain r tape' n where res: "res = (r, tape', n)" by (cases res) auto
      from mill_run_pass_valid [OF "1.prems" Inl [unfolded res]]
      have "r \<noteq> InvalidHeadMove" .
      with True Inl res show ?thesis by (simp add: unf)
    next
      case (Inr cfg)
      obtain tape1 p1 state1 where cfg: "cfg = (tape1, p1, state1)" by (cases cfg) auto
      from "1.IH" [OF True Inr cfg [symmetric] refl "1.prems"]
      have "fst (mill_run_loop prog tape1 (t + 1) p1 state1) \<noteq> InvalidHeadMove" .
      with True Inr cfg show ?thesis by (simp add: unf)
    qed
  qed
qed

lemma parse_headmove_only:
  "parse_headmove token = Inr m \<longleftrightarrow>
     (wcs token = [wc_L] \<and> m = HeadMove_left) \<or> (wcs token = [wc_R] \<and> m = HeadMove_right)"
proof (cases "wcs token")
  case Nil
  then show ?thesis by (simp add: parse_headmove_def wcslen_def)
next
  case (Cons c cs)
  then have "token \<noteq> []" by (auto simp: wcs_def)
  with Cons have c: "tok_at token 0 = c"
    by (cases token) (auto simp: wcs_def tok_at_def split: if_splits)
  from Cons c show ?thesis
    by (auto simp: parse_headmove_def wcslen_def wc_L_def wc_R_def)
qed

text \<open>
  C8. \<^verbatim>\<open>parse_headmove\<close> accepts the strings \<open>L\<close> and \<open>R\<close> and nothing else. Every
  instruction of a program that \<^verbatim>\<open>mill_parse_program\<close> returns has the move left or
  right, and a run of such a program, on any tape, does not end with the outcome
  \<open>InvalidHeadMove\<close>.
\<close>

theorem parsed_moves_valid:
  "(parse_headmove token = Inr m \<longleftrightarrow>
      (wcs token = [wc_L] \<and> m = HeadMove_left) \<or> (wcs token = [wc_R] \<and> m = HeadMove_right))
   \<and> (mill_parse_program sp inp = Inr prog \<longrightarrow>
        (\<forall>instr\<in>set (instructions prog).
            move instr = HeadMove_left \<or> move instr = HeadMove_right)
        \<and> (\<forall>tape. fst (mill_run prog tape) \<noteq> InvalidHeadMove))"
proof (intro conjI impI)
  show "parse_headmove token = Inr m \<longleftrightarrow>
      (wcs token = [wc_L] \<and> m = HeadMove_left) \<or> (wcs token = [wc_R] \<and> m = HeadMove_right)"
    by (rule parse_headmove_only)
next
  assume p: "mill_parse_program sp inp = Inr prog"
  then have loop: "mill_parse_program_loop sp inp
       \<lparr>symtable = preinterned, syminit = 0, symhalt = 1, instructions = []\<rparr> = Inr prog"
    by (simp add: mill_parse_program_preinterned)
  note r = mill_parse_program_loop_Inr [OF loop, THEN conjunct2, THEN conjunct2, THEN conjunct2]
  have "\<forall>instr\<in>set (instructions
      \<lparr>symtable = preinterned, syminit = 0, symhalt = 1, instructions = []\<rparr>).
        move instr \<noteq> HeadMove_none"
    by simp
  with r have mv: "\<forall>instr\<in>set (instructions prog). move instr \<noteq> HeadMove_none"
    by (rule mp)
  show "\<forall>instr\<in>set (instructions prog).
            move instr = HeadMove_left \<or> move instr = HeadMove_right"
  proof
    fix instr assume "instr \<in> set (instructions prog)"
    with mv have "move instr \<noteq> HeadMove_none" by blast
    then show "move instr = HeadMove_left \<or> move instr = HeadMove_right"
      by (cases "move instr") simp_all
  qed
  show "\<forall>tape. fst (mill_run prog tape) \<noteq> InvalidHeadMove"
    unfolding mill_run_def using mill_run_loop_valid [OF mv] by blast
qed

theorem parsed_moves_valid_witness:
  "parse_headmove (wstr ''R'') = Inr HeadMove_right
   \<and> mill_parse_program iswspace_C (wstr ''INIT a HALT b R'') = Inr scenario1_prog
   \<and> move (hd (instructions scenario1_prog)) = HeadMove_right
   \<and> fst (mill_run scenario1_prog tape_a) = Halted
   \<and> fst (mill_run scenario1_prog tape_a) \<noteq> InvalidHeadMove"
proof -
  note t = parsed_moves_valid [of "wstr ''R''" HeadMove_right iswspace_C
      "wstr ''INIT a HALT b R''" scenario1_prog]
  have w: "wcs (wstr ''R'') = [wc_R]" by (simp add: wcs_def wstr_def wc_R_def)
  then have a: "parse_headmove (wstr ''R'') = Inr HeadMove_right"
    using t [THEN conjunct1] by blast
  from t [THEN conjunct2, THEN mp, OF scenario1_parse, THEN conjunct2]
  have b: "fst (mill_run scenario1_prog tape_a) \<noteq> InvalidHeadMove" by (rule spec)
  have c: "move (hd (instructions scenario1_prog)) = HeadMove_right"
    by (simp add: scenario1_prog_def scenario1_instr_def)
  from a b c scenario1_parse scenario1_run show ?thesis by simp
qed

subsection \<open>Rendering\<close>

lemma size_t_sub_one: "size_t_sub a 1 mod n = head_move n a (- 1)"
  by (simp add: size_t_sub_def head_move_def size_t_add_def size_t_of_int_def SIZE_T_RANGE_def
        add.commute)

lemma size_t_add_one: "size_t_add a 1 mod n = head_move n a 1"
  by (simp add: head_move_def size_t_of_int_def SIZE_T_RANGE_def)

lemma scan_back_step:
  assumes "i < MILL_TAPE_SIZE"
  shows "size_t_sub ((MILL_TAPE_SIZE - i) mod MILL_TAPE_SIZE) (Suc 0) mod MILL_TAPE_SIZE
           = (MILL_TAPE_SIZE - Suc i) mod MILL_TAPE_SIZE"
proof (cases "i = 0")
  case True
  have "head_move MILL_TAPE_SIZE 0 (- 1) = MILL_TAPE_SIZE - 1"
    using head_move_left [of 0] by (simp add: MILL_TAPE_SIZE_def)
  moreover have "(MILL_TAPE_SIZE - 1) mod MILL_TAPE_SIZE = MILL_TAPE_SIZE - 1"
    by (simp add: MILL_TAPE_SIZE_def)
  ultimately show ?thesis
    using True size_t_sub_one [of 0 MILL_TAPE_SIZE] by simp
next
  case False
  with assms have m: "(MILL_TAPE_SIZE - i) mod MILL_TAPE_SIZE = MILL_TAPE_SIZE - i"
    and lt: "MILL_TAPE_SIZE - i < MILL_TAPE_SIZE" and pos: "MILL_TAPE_SIZE - i \<noteq> 0"
    by simp_all
  from head_move_left [OF lt] pos
  have "head_move MILL_TAPE_SIZE (MILL_TAPE_SIZE - i) (- 1) = MILL_TAPE_SIZE - i - 1"
    by simp
  moreover from assms have "(MILL_TAPE_SIZE - Suc i) mod MILL_TAPE_SIZE = MILL_TAPE_SIZE - Suc i"
    by simp
  ultimately show ?thesis
    using size_t_sub_one [of "MILL_TAPE_SIZE - i" MILL_TAPE_SIZE] m by simp
qed

lemma scan_fwd_step:
  "size_t_add ((s + i) mod MILL_TAPE_SIZE) (Suc 0) mod MILL_TAPE_SIZE
     = Suc (s + i) mod MILL_TAPE_SIZE"
proof -
  have lt: "(s + i) mod MILL_TAPE_SIZE < MILL_TAPE_SIZE"
    by (simp add: MILL_TAPE_SIZE_def)
  have "head_move MILL_TAPE_SIZE ((s + i) mod MILL_TAPE_SIZE) 1
      = Suc ((s + i) mod MILL_TAPE_SIZE) mod MILL_TAPE_SIZE"
    unfolding head_move_right [OF lt] using lt by (simp add: mod_Suc)
  then show ?thesis
    using size_t_add_one [of "(s + i) mod MILL_TAPE_SIZE" MILL_TAPE_SIZE]
    by (simp add: mod_Suc_eq)
qed

lemma print_scan_back_find:
  assumes "tape_size tape = MILL_TAPE_SIZE" and "i \<le> MILL_TAPE_SIZE"
  shows "print_scan_back tape i ((MILL_TAPE_SIZE - i) mod MILL_TAPE_SIZE)
           = (case find (\<lambda>j. buf tape j = 0)
                     (map (\<lambda>k. (MILL_TAPE_SIZE - k) mod MILL_TAPE_SIZE) [i..<MILL_TAPE_SIZE]) of
                Some j \<Rightarrow> j
              | None \<Rightarrow> 0)"
  using assms(2)
proof (induction "MILL_TAPE_SIZE - i" arbitrary: i)
  case 0
  then have "i = MILL_TAPE_SIZE" by simp
  with assms(1) show ?case
    by (subst print_scan_back.simps) simp
next
  case (Suc d)
  then have lt: "i < MILL_TAPE_SIZE" by simp
  then have upt: "[i..<MILL_TAPE_SIZE] = i # [i + 1..<MILL_TAPE_SIZE]"
    by (simp add: upt_conv_Cons)
  let ?start = "(MILL_TAPE_SIZE - i) mod MILL_TAPE_SIZE"
  show ?case
  proof (cases "buf tape ?start = 0")
    case True
    with lt assms(1) upt show ?thesis
      by (subst print_scan_back.simps) simp
  next
    case False
    from Suc.hyps(2) have d: "d = MILL_TAPE_SIZE - (i + 1)" by simp
    from lt have le: "i + 1 \<le> MILL_TAPE_SIZE" by simp
    note ih = Suc.hyps(1) [OF d le]
    from False lt assms(1) have "print_scan_back tape i ?start
        = print_scan_back tape (i + 1) ((MILL_TAPE_SIZE - (i + 1)) mod MILL_TAPE_SIZE)"
      by (subst print_scan_back.simps) (simp add: scan_back_step [OF lt])
    with ih False upt show ?thesis by simp
  qed
qed

lemma print_scan_fwd_find:
  assumes "tape_size tape = MILL_TAPE_SIZE" and "i \<le> MILL_TAPE_SIZE" and "s < MILL_TAPE_SIZE"
  shows "print_scan_fwd tape i ((s + i) mod MILL_TAPE_SIZE)
           = (case find (\<lambda>j. buf tape j \<noteq> 0)
                     (map (\<lambda>k. (s + k) mod MILL_TAPE_SIZE) [i..<MILL_TAPE_SIZE]) of
                Some j \<Rightarrow> j
              | None \<Rightarrow> s)"
  using assms(2)
proof (induction "MILL_TAPE_SIZE - i" arbitrary: i)
  case 0
  then have "i = MILL_TAPE_SIZE" by simp
  with assms(1,3) show ?case
    by (subst print_scan_fwd.simps) simp
next
  case (Suc d)
  then have lt: "i < MILL_TAPE_SIZE" by simp
  then have upt: "[i..<MILL_TAPE_SIZE] = i # [i + 1..<MILL_TAPE_SIZE]"
    by (simp add: upt_conv_Cons)
  let ?start = "(s + i) mod MILL_TAPE_SIZE"
  show ?case
  proof (cases "buf tape ?start \<noteq> 0")
    case True
    with lt assms(1) upt show ?thesis
      by (subst print_scan_fwd.simps) simp
  next
    case False
    from Suc.hyps(2) have d: "d = MILL_TAPE_SIZE - (i + 1)" by simp
    from lt have le: "i + 1 \<le> MILL_TAPE_SIZE" by simp
    note ih = Suc.hyps(1) [OF d le]
    from False lt assms(1) have "print_scan_fwd tape i ?start
        = print_scan_fwd tape (i + 1) ((s + (i + 1)) mod MILL_TAPE_SIZE)"
      by (subst print_scan_fwd.simps) (simp add: scan_fwd_step)
    with ih False upt show ?thesis by simp
  qed
qed

lemma tape_wcs_run:
  assumes "null_cell tape = 0"
  shows "tape_wcs tape i = render_run tape i"
proof (induction "tape_size tape - i" arbitrary: i)
  case 0
  with assms show ?case
    by (subst tape_wcs.simps) (simp add: render_run_def)
next
  case (Suc d)
  then have lt: "i < tape_size tape" by simp
  then have upt: "[i..<tape_size tape] = i # [i + 1..<tape_size tape]"
    by (simp add: upt_conv_Cons)
  from Suc.hyps(2) have "d = tape_size tape - (i + 1)" by simp
  from Suc.hyps(1) [OF this] have ih: "tape_wcs tape (i + 1) = render_run tape (i + 1)" .
  from lt ih upt show ?case
    by (subst tape_wcs.simps) (simp add: render_run_def)
qed

lemma find_in_set: "find P xs = Some x \<Longrightarrow> x \<in> set xs"
  by (induction xs) (auto split: if_splits)

lemma tape_size_pos: "0 < MILL_TAPE_SIZE"
  by (simp add: MILL_TAPE_SIZE_def)

lemma render_seam_less:
  assumes "tape_size tape = MILL_TAPE_SIZE"
  shows "render_seam tape < MILL_TAPE_SIZE"
proof (cases "find (\<lambda>i. buf tape i = 0)
             (map (\<lambda>k. (MILL_TAPE_SIZE - k) mod MILL_TAPE_SIZE) [0..<MILL_TAPE_SIZE])")
  case None
  with assms tape_size_pos show ?thesis by (simp add: render_seam_def)
next
  case (Some j)
  from find_in_set [OF Some] tape_size_pos have "j < MILL_TAPE_SIZE"
    by auto
  with Some assms show ?thesis by (simp add: render_seam_def)
qed

lemma print_scan_back_seam:
  assumes "tape_size tape = MILL_TAPE_SIZE"
  shows "print_scan_back tape 0 0 = render_seam tape"
  using print_scan_back_find [OF assms, of 0] assms
  by (simp add: render_seam_def)

lemma print_scan_fwd_start:
  assumes "tape_size tape = MILL_TAPE_SIZE"
  shows "print_scan_fwd tape 0 (render_seam tape) = render_start tape"
  using print_scan_fwd_find [OF assms _ render_seam_less [OF assms], of 0] assms
    render_seam_less [OF assms]
  by (simp add: render_start_def)

lemma mill_print_tape_spec:
  assumes "tape_size tape = MILL_TAPE_SIZE" and "null_cell tape = 0"
  shows "mill_print_tape tape = render_spec tape"
  by (simp add: mill_print_tape_def render_spec_def print_scan_back_seam [OF assms(1)]
        print_scan_fwd_start [OF assms(1)] tape_wcs_run [OF assms(2)] Let_def)

lemma upt_tape: "[0..<MILL_TAPE_SIZE] = 0 # [Suc 0..<MILL_TAPE_SIZE]"
  by (rule upt_conv_Cons [OF tape_size_pos])

lemma render_seam_blank0:
  assumes "tape_size tape = MILL_TAPE_SIZE" and "buf tape 0 = 0"
  shows "render_seam tape = 0"
  using assms by (simp add: render_seam_def upt_tape)

lemma render_blank:
  assumes "tape_size tape = MILL_TAPE_SIZE"
    and "\<forall>i<MILL_TAPE_SIZE. buf tape i = 0"
  shows "render_spec tape = [wc_newline]"
proof -
  note n = tape_size_pos
  with assms(2) have b0: "buf tape 0 = 0" by blast
  from render_seam_blank0 [OF assms(1) b0] have seam: "render_seam tape = 0" .
  have "find (\<lambda>i. buf tape i \<noteq> 0)
          (map (\<lambda>k. (0 + k) mod MILL_TAPE_SIZE) [0..<MILL_TAPE_SIZE]) = None"
  proof (rule ccontr)
    assume "find (\<lambda>i. buf tape i \<noteq> 0)
          (map (\<lambda>k. (0 + k) mod MILL_TAPE_SIZE) [0..<MILL_TAPE_SIZE]) \<noteq> None"
    then obtain j where j: "find (\<lambda>i. buf tape i \<noteq> 0)
          (map (\<lambda>k. (0 + k) mod MILL_TAPE_SIZE) [0..<MILL_TAPE_SIZE]) = Some j"
      by auto
    from find_in_set [OF j] n have "j < MILL_TAPE_SIZE" by auto
    with assms(2) have "buf tape j = 0" by blast
    moreover from j have "buf tape j \<noteq> 0" by (auto simp: find_Some_iff)
    ultimately show False by simp
  qed
  with seam assms(1) have start: "render_start tape = 0" by (simp add: render_start_def)
  from b0 assms(1) have "render_run tape 0 = []" by (simp add: render_run_def upt_tape)
  with start show ?thesis by (simp add: render_spec_def)
qed

lemma scenario4_main:
  "mill_main iswspace_C (wstr ''INIT a HALT _ L'') (wstr ''a'') = Output 1 [wc_newline]"
proof -
  let ?final = "Tape_zero\<lparr>pos := 1048575\<rparr>"
  have "mill_print_tape ?final = render_spec ?final"
    by (rule mill_print_tape_spec) (simp_all add: Tape_zero_def)
  also have "\<dots> = [wc_newline]"
    by (rule render_blank) (simp_all add: Tape_zero_def)
  finally show ?thesis
    by (simp add: mill_main_def scenario4_parse read_tape_a scenario4_run return_code_def)
qed

text \<open>
  C3. Rendering. For a tape of the size \<^verbatim>\<open>main\<close> sets, with the field after the array
  zero: what \<^verbatim>\<open>mill_print_tape\<close> writes is the rendering that the specification
  describes; its first loop ends on the seam and its second loop on the start; the seam
  is 0 when cell 0 is blank; and for a tape whose cells are all blank the output is a
  newline alone. Scenario 4 is such a run: \<open>INIT a HALT _ L\<close> on the tape \<open>a\<close> blanks
  cell 0, and \<^verbatim>\<open>main\<close> outputs the empty string and a newline.
\<close>

theorem render_follows_spec:
  "(tape_size tape = MILL_TAPE_SIZE \<and> null_cell tape = 0 \<longrightarrow>
      mill_print_tape tape = render_spec tape
      \<and> print_scan_back tape 0 0 = render_seam tape
      \<and> print_scan_fwd tape 0 (render_seam tape) = render_start tape
      \<and> (buf tape 0 = 0 \<longrightarrow> render_seam tape = 0)
      \<and> ((\<forall>i<MILL_TAPE_SIZE. buf tape i = 0) \<longrightarrow> mill_print_tape tape = [wc_newline]))
   \<and> mill_main iswspace_C (wstr ''INIT a HALT _ L'') (wstr ''a'') = Output 1 (wstr ''\<newline>'')"
proof (intro conjI impI)
  assume a: "tape_size tape = MILL_TAPE_SIZE \<and> null_cell tape = 0"
  then have s: "tape_size tape = MILL_TAPE_SIZE" and z: "null_cell tape = 0" by simp_all
  show "mill_print_tape tape = render_spec tape" by (rule mill_print_tape_spec [OF s z])
  show "print_scan_back tape 0 0 = render_seam tape" by (rule print_scan_back_seam [OF s])
  show "print_scan_fwd tape 0 (render_seam tape) = render_start tape"
    by (rule print_scan_fwd_start [OF s])
  show "render_seam tape = 0" if "buf tape 0 = 0"
    by (rule render_seam_blank0 [OF s that])
  show "mill_print_tape tape = [wc_newline]" if "\<forall>i<MILL_TAPE_SIZE. buf tape i = 0"
    unfolding mill_print_tape_spec [OF s z] by (rule render_blank [OF s that])
next
  show "mill_main iswspace_C (wstr ''INIT a HALT _ L'') (wstr ''a'') = Output 1 (wstr ''\<newline>'')"
    using scenario4_main by (simp add: wstr_def wc_newline_def)
qed

text \<open>
  A tape whose content wraps: \<open>xy\<close> in the last two cells, \<open>ab\<close> in the first two.
\<close>

definition wrapped_tape :: MillTape where
  "wrapped_tape =
     Tape_zero\<lparr>buf := (\<lambda>i. if i = 1048574 then 120 else if i = 1048575 then 121
                          else if i = 0 then 97 else if i = 1 then 98 else 0)\<rparr>"

lemma wrapped_tape_print: "mill_print_tape wrapped_tape = wstr ''xyab\<newline>''"
  by (simp add: print_simps wrapped_tape_def Tape_zero_def mill_consts wstr_def)

lemma wrapped_tape_scan:
  "print_scan_back wrapped_tape 0 0 = 1048573"
  "print_scan_fwd wrapped_tape 0 1048573 = 1048574"
  by (simp_all add: print_simps wrapped_tape_def Tape_zero_def mill_consts)

theorem render_follows_spec_witness:
  "tape_size wrapped_tape = MILL_TAPE_SIZE \<and> null_cell wrapped_tape = 0
   \<and> mill_print_tape wrapped_tape = wstr ''xyab\<newline>''
   \<and> render_spec wrapped_tape = wstr ''xyab\<newline>''
   \<and> render_seam wrapped_tape = 1048573
   \<and> render_start wrapped_tape = 1048574"
proof -
  have h: "tape_size wrapped_tape = MILL_TAPE_SIZE \<and> null_cell wrapped_tape = 0"
    by (simp add: wrapped_tape_def Tape_zero_def)
  note t = render_follows_spec [of wrapped_tape, THEN conjunct1, THEN mp, OF h]
  from t [THEN conjunct1] have a: "render_spec wrapped_tape = wstr ''xyab\<newline>''"
    by (simp add: wrapped_tape_print)
  from t [THEN conjunct2, THEN conjunct1] have b: "render_seam wrapped_tape = 1048573"
    by (simp add: wrapped_tape_scan)
  from t [THEN conjunct2, THEN conjunct2, THEN conjunct1]
  have c: "render_start wrapped_tape = 1048574"
    by (simp add: b wrapped_tape_scan)
  from h a b c wrapped_tape_print show ?thesis by simp
qed

subsection \<open>The written region\<close>

lemma fgetws_take_length: "length (fgetws_take k inp) \<le> min k (length inp)"
proof (induction inp arbitrary: k)
  case Nil
  then show ?case by simp
next
  case (Cons c cs)
  show ?case
  proof (cases "k = 0")
    case True
    then show ?thesis by simp
  next
    case False
    with Cons [of "k - 1"] show ?thesis by auto
  qed
qed

lemma fgetws_take_replicate:
  "c \<noteq> wc_newline \<Longrightarrow> n \<le> k \<Longrightarrow> fgetws_take k (replicate n c) = replicate n c"
  by (induction n arbitrary: k) auto

lemma store_wcs_apply:
  "store_wcs b off s i =
     (if off \<le> i \<and> i < off + length s then s ! (i - off)
      else if i = off + length s then 0 else b i)"
proof (induction s arbitrary: b off i)
  case Nil
  then show ?case by simp
next
  case (Cons c cs)
  show ?case by (auto simp: Cons nth_Cons' Suc_diff_le)
qed

lemma nonblank_cells_le:
  assumes "\<forall>i<tape_size tape. buf tape i \<noteq> 0 \<longrightarrow> i < n"
  shows "nonblank_cells tape \<le> n"
proof -
  from assms have "{i. i < tape_size tape \<and> buf tape i \<noteq> 0} \<subseteq> {..<n}" by auto
  then have "card {i. i < tape_size tape \<and> buf tape i \<noteq> 0} \<le> card {..<n}"
    by (intro card_mono) simp_all
  then show ?thesis by (simp add: nonblank_cells_def)
qed

lemma mill_read_tape_nonblank:
  assumes "mill_read_tape inp Tape_zero = Inr tape"
  shows "nonblank_cells tape \<le> min (length inp) (MILL_TAPE_SIZE - 1)
         \<and> has_blank tape \<and> tape_size tape = MILL_TAPE_SIZE \<and> pos tape = 0
         \<and> null_cell tape = 0"
proof -
  let ?s = "fgetws_take (MILL_TAPE_SIZE - 1) inp"
  from assms have tape: "tape = Tape_zero\<lparr>buf := store_wcs (\<lambda>i. 0) 0 ?s\<rparr>"
    by (auto simp: mill_read_tape_def fgetws_def Tape_zero_def split: if_splits)
  have len: "length ?s \<le> min (MILL_TAPE_SIZE - 1) (length inp)" by (rule fgetws_take_length)
  have b: "buf tape i = (if i < length ?s then ?s ! i else 0)" for i
    by (simp add: tape store_wcs_apply)
  have size: "tape_size tape = MILL_TAPE_SIZE" by (simp add: tape Tape_zero_def)
  have "nonblank_cells tape \<le> length ?s"
    by (rule nonblank_cells_le) (simp add: b)
  with len have n: "nonblank_cells tape \<le> min (length inp) (MILL_TAPE_SIZE - 1)" by simp
  from len have "length ?s < MILL_TAPE_SIZE" by (simp add: MILL_TAPE_SIZE_def)
  moreover have "buf tape (length ?s) = 0" by (simp add: b)
  ultimately have h: "has_blank tape" unfolding has_blank_def size by blast
  from n h size show ?thesis by (simp add: tape Tape_zero_def)
qed

lemma nonblank_cells_update:
  assumes "tape_size tape' = tape_size tape" and "buf tape' = (buf tape)(p := v)"
  shows "nonblank_cells tape' \<le> nonblank_cells tape + 1"
proof -
  let ?A = "{i. i < tape_size tape \<and> buf tape i \<noteq> 0}"
  have fin: "finite ?A" by simp
  from assms have "{i. i < tape_size tape' \<and> buf tape' i \<noteq> 0} \<subseteq> insert p ?A" by auto
  then have "card {i. i < tape_size tape' \<and> buf tape' i \<noteq> 0} \<le> card (insert p ?A)"
    by (intro card_mono) (simp_all add: fin)
  also have "\<dots> \<le> card ?A + 1" using fin by (simp add: card_insert_if)
  finally show ?thesis by (simp add: nonblank_cells_def)
qed

lemma has_blank_card:
  assumes "nonblank_cells tape < tape_size tape"
  shows "has_blank tape"
proof (rule ccontr)
  assume "\<not> has_blank tape"
  then have "{i. i < tape_size tape \<and> buf tape i \<noteq> 0} = {..<tape_size tape}"
    by (auto simp: has_blank_def)
  then have "nonblank_cells tape = tape_size tape" by (simp add: nonblank_cells_def)
  with assms show False by simp
qed

lemma mill_run_pass_cells:
  assumes "tape_size tape = MILL_TAPE_SIZE" and "p < MILL_TAPE_SIZE"
  shows "case mill_run_pass prog tape t p state of
           Inl (r, tape', n) \<Rightarrow> n = t + 1 \<and> nonblank_cells tape' \<le> nonblank_cells tape + 1
         | Inr (tape', p', state') \<Rightarrow> nonblank_cells tape' \<le> nonblank_cells tape + 1"
proof (cases "mill_run_pass prog tape t p state")
  case (Inl res)
  obtain r tape' n where res: "res = (r, tape', n)" by (cases res) auto
  from mill_run_pass_effect [where prog = prog and t = t and state = state, OF assms] Inl res
  have n: "n = t + 1" and sz: "tape_size tape' = MILL_TAPE_SIZE"
    and v: "\<exists>v. buf tape' = (buf tape)(p := v)"
    by simp_all
  from v obtain v where "buf tape' = (buf tape)(p := v)" ..
  from nonblank_cells_update [OF _ this] sz assms(1)
  have "nonblank_cells tape' \<le> nonblank_cells tape + 1" by simp
  with n Inl res show ?thesis by simp
next
  case (Inr cfg)
  obtain tape' p' state' where cfg: "cfg = (tape', p', state')" by (cases cfg) auto
  from mill_run_pass_effect [where prog = prog and t = t and state = state, OF assms] Inr cfg
  have sz: "tape_size tape' = MILL_TAPE_SIZE"
    and v: "\<exists>v. buf tape' = (buf tape)(p := v)"
    by simp_all
  from v obtain v where "buf tape' = (buf tape)(p := v)" ..
  from nonblank_cells_update [OF _ this] sz assms(1)
  have "nonblank_cells tape' \<le> nonblank_cells tape + 1" by simp
  with Inr cfg show ?thesis by simp
qed

lemma mill_run_at_cells:
  assumes "tape_size tape = MILL_TAPE_SIZE" and "p < MILL_TAPE_SIZE"
    and "mill_run_at prog tape p state n = Some (tape', p', state')"
  shows "nonblank_cells tape' \<le> nonblank_cells tape + n"
  using assms(3)
proof (induction n arbitrary: tape' p' state')
  case 0
  then show ?case by simp
next
  case (Suc n)
  from Suc.prems obtain tape1 p1 state1 where
    at: "mill_run_at prog tape p state n = Some (tape1, p1, state1)"
    and pass: "mill_run_pass prog tape1 n p1 state1 = Inr (tape', p', state')"
    by (auto split: option.splits sum.splits)
  from mill_run_at_invariant [OF assms(1,2) at]
  have ok: "tape_size tape1 = MILL_TAPE_SIZE" "p1 < MILL_TAPE_SIZE" by simp_all
  from mill_run_pass_cells [where prog = prog and t = n and state = state1, OF ok] pass
  have "nonblank_cells tape' \<le> nonblank_cells tape1 + 1" by simp
  with Suc.IH [OF at] show ?case by simp
qed

lemma mill_run_loop_cells:
  assumes "tape_size tape = MILL_TAPE_SIZE" and "p < MILL_TAPE_SIZE" and "t \<le> MILL_STEPS_MAX"
    and "mill_run_loop prog tape t p state = (r, tape', k)"
  shows "t \<le> k \<and> k \<le> MILL_STEPS_MAX \<and> nonblank_cells tape' + t \<le> nonblank_cells tape + k"
  using assms
proof (induction prog tape t p state rule: mill_run_loop.induct)
  case (1 prog tape t p state)
  note unf = mill_run_loop.simps [of prog tape t p state]
  show ?case
  proof (cases "t < MILL_STEPS_MAX")
    case False
    with "1.prems"(3) have t: "t = MILL_STEPS_MAX" by simp
    from False "1.prems"(4) have "k = MILL_STEPS_MAX" and "tape' = tape\<lparr>pos := p\<rparr>"
      by (auto simp: unf)
    with t show ?thesis by (simp add: nonblank_cells_def)
  next
    case True
    note cells = mill_run_pass_cells [where prog = prog and t = t and state = state,
        OF "1.prems"(1,2)]
    note eff = mill_run_pass_effect [where prog = prog and t = t and state = state,
        OF "1.prems"(1,2)]
    show ?thesis
    proof (cases "mill_run_pass prog tape t p state")
      case (Inl res)
      with True "1.prems"(4) have "res = (r, tape', k)" by (simp add: unf)
      with cells Inl have "k = t + 1" "nonblank_cells tape' \<le> nonblank_cells tape + 1"
        by simp_all
      with True show ?thesis by simp
    next
      case (Inr cfg)
      obtain tape1 p1 state1 where cfg: "cfg = (tape1, p1, state1)" by (cases cfg) auto
      with True Inr "1.prems"(4)
      have rec: "mill_run_loop prog tape1 (t + 1) p1 state1 = (r, tape', k)"
        by (simp add: unf)
      from eff Inr cfg have ok: "tape_size tape1 = MILL_TAPE_SIZE" "p1 < MILL_TAPE_SIZE"
        by simp_all
      from True have le: "t + 1 \<le> MILL_STEPS_MAX" by simp
      from "1.IH" [OF True Inr cfg [symmetric] refl ok le rec]
      have ih: "t + 1 \<le> k" "k \<le> MILL_STEPS_MAX"
        "nonblank_cells tape' + (t + 1) \<le> nonblank_cells tape1 + k"
        by simp_all
      from cells Inr cfg have "nonblank_cells tape1 \<le> nonblank_cells tape + 1" by simp
      with ih show ?thesis by simp
    qed
  qed
qed

lemma has_blank_bound:
  assumes "tape_size tape' = MILL_TAPE_SIZE" and "nonblank_cells tape' \<le> m"
    and "m < MILL_TAPE_SIZE"
  shows "has_blank tape'"
proof (rule has_blank_card)
  from assms show "nonblank_cells tape' < tape_size tape'" by simp
qed

text \<open>
  C9, amended. Loading a line leaves at most as many cells non-blank as the line has
  characters, and at most \<open>N - 1\<close>, so a blank cell remains after loading. Each pass
  of the run writes one cell at most: after \<open>n\<close> passes, and in the tape that the run
  returns after \<open>k \<le> 1000000\<close> steps, at most that many more cells are non-blank, and
  some cell is blank as long as the number of non-blank cells after loading plus the
  number of steps is below \<open>N\<close>. For a line of at most 48575 characters that is every
  state the run reaches.
\<close>

theorem written_region_bound:
  "(mill_read_tape inp Tape_zero = Inr tape \<longrightarrow>
      nonblank_cells tape \<le> min (length inp) (MILL_TAPE_SIZE - 1) \<and> has_blank tape
      \<and> tape_size tape = MILL_TAPE_SIZE \<and> pos tape = 0)
   \<and> (tape_size tape = MILL_TAPE_SIZE \<and> pos tape < MILL_TAPE_SIZE \<longrightarrow>
        (\<forall>n tape' p' state'.
            mill_run_at prog tape (pos tape) (syminit prog) n = Some (tape', p', state') \<longrightarrow>
              nonblank_cells tape' \<le> nonblank_cells tape + n
              \<and> (nonblank_cells tape + n < MILL_TAPE_SIZE \<longrightarrow> has_blank tape'))
        \<and> (\<forall>r tape' k.
            mill_run prog tape = (r, tape', k) \<longrightarrow>
              k \<le> 1000000 \<and> nonblank_cells tape' \<le> nonblank_cells tape + k
              \<and> (nonblank_cells tape + k < MILL_TAPE_SIZE \<longrightarrow> has_blank tape')))
   \<and> (mill_read_tape inp Tape_zero = Inr tape \<and> length inp \<le> 48575 \<longrightarrow>
        (\<forall>n tape' p' state'.
            mill_run_at prog tape (pos tape) (syminit prog) n = Some (tape', p', state')
            \<and> n \<le> 1000000 \<longrightarrow> has_blank tape')
        \<and> (\<forall>r tape' k. mill_run prog tape = (r, tape', k) \<longrightarrow> has_blank tape'))"
proof (intro conjI allI impI)
  assume rd: "mill_read_tape inp Tape_zero = Inr tape"
  note l = mill_read_tape_nonblank [OF rd]
  show "nonblank_cells tape \<le> min (length inp) (MILL_TAPE_SIZE - 1)" by (rule l [THEN conjunct1])
  show "has_blank tape" by (rule l [THEN conjunct2, THEN conjunct1])
  show "tape_size tape = MILL_TAPE_SIZE" by (rule l [THEN conjunct2, THEN conjunct2, THEN conjunct1])
  show "pos tape = 0"
    by (rule l [THEN conjunct2, THEN conjunct2, THEN conjunct2, THEN conjunct1])
next
  fix n tape' p' state'
  assume ok: "tape_size tape = MILL_TAPE_SIZE \<and> pos tape < MILL_TAPE_SIZE"
    and at: "mill_run_at prog tape (pos tape) (syminit prog) n = Some (tape', p', state')"
  from ok have sz: "tape_size tape = MILL_TAPE_SIZE" and ps: "pos tape < MILL_TAPE_SIZE"
    by simp_all
  show c: "nonblank_cells tape' \<le> nonblank_cells tape + n"
    by (rule mill_run_at_cells [OF sz ps at])
  from mill_run_at_invariant [OF sz ps at] have sz': "tape_size tape' = MILL_TAPE_SIZE"
    by simp
  show "has_blank tape'" if "nonblank_cells tape + n < MILL_TAPE_SIZE"
    by (rule has_blank_bound [OF sz' c that])
next
  fix r tape' k
  assume ok: "tape_size tape = MILL_TAPE_SIZE \<and> pos tape < MILL_TAPE_SIZE"
    and run: "mill_run prog tape = (r, tape', k)"
  from ok have sz: "tape_size tape = MILL_TAPE_SIZE" and ps: "pos tape < MILL_TAPE_SIZE"
    by simp_all
  from run have loop: "mill_run_loop prog tape 0 (pos tape) (syminit prog) = (r, tape', k)"
    by (simp add: mill_run_def)
  from mill_run_loop_cells [OF sz ps _ loop]
  have k: "k \<le> MILL_STEPS_MAX" and c: "nonblank_cells tape' \<le> nonblank_cells tape + k"
    by simp_all
  from k show "k \<le> 1000000" by (simp add: MILL_STEPS_MAX_def)
  from c show "nonblank_cells tape' \<le> nonblank_cells tape + k" .
  from mill_run_loop_invariant [OF sz ps loop] have sz': "tape_size tape' = MILL_TAPE_SIZE"
    by simp
  show "has_blank tape'" if "nonblank_cells tape + k < MILL_TAPE_SIZE"
    by (rule has_blank_bound [OF sz' c that])
next
  fix n tape' p' state'
  assume a: "mill_read_tape inp Tape_zero = Inr tape \<and> length inp \<le> 48575"
    and b: "mill_run_at prog tape (pos tape) (syminit prog) n = Some (tape', p', state')
            \<and> n \<le> 1000000"
  from a have rd: "mill_read_tape inp Tape_zero = Inr tape" and len: "length inp \<le> 48575"
    by simp_all
  from b have at: "mill_run_at prog tape (pos tape) (syminit prog) n = Some (tape', p', state')"
    and n: "n \<le> 1000000" by simp_all
  note l = mill_read_tape_nonblank [OF rd]
  from l have sz: "tape_size tape = MILL_TAPE_SIZE" by simp
  from l have ps: "pos tape < MILL_TAPE_SIZE" by (simp add: MILL_TAPE_SIZE_def)
  from l len have nb: "nonblank_cells tape \<le> 48575" by simp
  from mill_run_at_invariant [OF sz ps at] have sz': "tape_size tape' = MILL_TAPE_SIZE"
    by simp
  from nb n have "nonblank_cells tape + n < MILL_TAPE_SIZE" by (simp add: MILL_TAPE_SIZE_def)
  from has_blank_bound [OF sz' mill_run_at_cells [OF sz ps at] this]
  show "has_blank tape'" .
next
  fix r tape' k
  assume a: "mill_read_tape inp Tape_zero = Inr tape \<and> length inp \<le> 48575"
    and run: "mill_run prog tape = (r, tape', k)"
  from a have rd: "mill_read_tape inp Tape_zero = Inr tape" and len: "length inp \<le> 48575"
    by simp_all
  note l = mill_read_tape_nonblank [OF rd]
  from l have sz: "tape_size tape = MILL_TAPE_SIZE" by simp
  from l have ps: "pos tape < MILL_TAPE_SIZE" by (simp add: MILL_TAPE_SIZE_def)
  from l len have nb: "nonblank_cells tape \<le> 48575" by simp
  from run have loop: "mill_run_loop prog tape 0 (pos tape) (syminit prog) = (r, tape', k)"
    by (simp add: mill_run_def)
  from mill_run_loop_cells [OF sz ps _ loop]
  have k: "k \<le> MILL_STEPS_MAX" and c: "nonblank_cells tape' \<le> nonblank_cells tape + k"
    by simp_all
  from mill_run_loop_invariant [OF sz ps loop] have sz': "tape_size tape' = MILL_TAPE_SIZE"
    by simp
  from nb k have "nonblank_cells tape + k < MILL_TAPE_SIZE"
    by (simp add: MILL_TAPE_SIZE_def MILL_STEPS_MAX_def)
  from has_blank_bound [OF sz' c this] show "has_blank tape'" .
qed

text \<open>
  \<open>INIT a A a L\<close> and \<open>A _ HALT b R\<close>: one step left from cell 0, then a write on the
  cell reached.
\<close>

definition fill_prog :: MillProgram where
  "fill_prog =
     \<lparr>symtable = \<lparr>symbols = [wstr ''INIT'', wstr ''HALT'', wstr ''A''], datasize = 12\<rparr>,
      syminit = 0, symhalt = 1,
      instructions =
        [\<lparr>state_in = 0, char_in = 97, state_out = 2, char_out = 97, move = HeadMove_left\<rparr>,
         \<lparr>state_in = 2, char_in = 0, state_out = 1, char_out = 98, move = HeadMove_right\<rparr>]\<rparr>"

text \<open>The tape after loading a line of 1048575 letters \<open>a\<close>, and after the run.\<close>

definition full_line_tape :: MillTape where
  "full_line_tape = Tape_zero\<lparr>buf := (\<lambda>i. if i < 1048575 then 97 else 0)\<rparr>"

definition filled_tape :: MillTape where
  "filled_tape =
     Tape_zero\<lparr>buf := (\<lambda>i. if i < 1048575 then 97 else if i = 1048575 then 98 else 0)\<rparr>"

lemma fill_line1:
  "mill_parse_instruction iswspace_C (wstr ''INIT a A a L\<newline>A _ HALT b R'') preinterned
     = Inr (wstr ''A _ HALT b R'',
         \<lparr>symbols = [wstr ''INIT'', wstr ''HALT'', wstr ''A''], datasize = 12\<rparr>,
         Some \<lparr>state_in = 0, char_in = 97, state_out = 2, char_out = 97, move = HeadMove_left\<rparr>)"
  by (simp add: parse_simps preinterned_def wstr_def iswspace_C_def wcs_simps mill_consts)

lemma fill_line2:
  "mill_parse_instruction iswspace_C (wstr ''A _ HALT b R'')
       \<lparr>symbols = [wstr ''INIT'', wstr ''HALT'', wstr ''A''], datasize = 12\<rparr>
     = Inr ([], \<lparr>symbols = [wstr ''INIT'', wstr ''HALT'', wstr ''A''], datasize = 12\<rparr>,
         Some \<lparr>state_in = 2, char_in = 0, state_out = 1, char_out = 98, move = HeadMove_right\<rparr>)"
  by (simp add: parse_simps wstr_def iswspace_C_def wcs_simps mill_consts)

lemma fill_parse:
  "mill_parse_program iswspace_C (wstr ''INIT a A a L\<newline>A _ HALT b R'') = Inr fill_prog"
  unfolding mill_parse_program_preinterned
  apply (subst mill_parse_program_loop.simps)
  apply (simp add: fill_line1 MILL_INSTR_MAX_def)
  apply (subst mill_parse_program_loop.simps)
  apply (simp add: fill_line2 MILL_INSTR_MAX_def)
  apply (subst mill_parse_program_loop.simps)
  apply (simp add: parse_at_end fill_prog_def)
  done

lemma fill_read: "mill_read_tape (replicate 1048575 97) Tape_zero = Inr full_line_tape"
proof -
  have t: "fgetws_take (MILL_TAPE_SIZE - 1) (replicate 1048575 97) = replicate 1048575 97"
    by (rule fgetws_take_replicate) (simp_all add: mill_consts)
  have "store_wcs (\<lambda>i. 0) 0 (replicate 1048575 97) = (\<lambda>i. if i < 1048575 then 97 else 0)"
    by (rule ext) (simp add: store_wcs_apply)
  with t show ?thesis
    by (simp add: mill_read_tape_def fgetws_def full_line_tape_def Tape_zero_def)
qed

lemma fill_run: "mill_run fill_prog full_line_tape = (Halted, filled_tape, 2)"
  by (simp add: fun_eq_iff run_simps fill_prog_def full_line_tape_def filled_tape_def
        Tape_zero_def mill_consts)

lemma filled_tape_size: "tape_size filled_tape = MILL_TAPE_SIZE"
  by (simp add: filled_tape_def Tape_zero_def)

lemma filled_tape_cell: "i < MILL_TAPE_SIZE \<Longrightarrow> buf filled_tape i \<noteq> 0"
  by (simp add: filled_tape_def Tape_zero_def MILL_TAPE_SIZE_def)

lemma filled_tape_full: "\<not> has_blank filled_tape"
  using filled_tape_cell by (auto simp: has_blank_def filled_tape_size)

lemma filled_tape_cells: "nonblank_cells filled_tape = MILL_TAPE_SIZE"
proof -
  have "{i. i < tape_size filled_tape \<and> buf filled_tape i \<noteq> 0} = {..<MILL_TAPE_SIZE}"
    using filled_tape_cell by (auto simp: filled_tape_size)
  then show ?thesis by (simp add: nonblank_cells_def)
qed

text \<open>
  C9, as the claim states it, fails: a tape line of 1048575 characters fills all cells
  but the last, and two steps of the program above fill the last one. The step cap does
  not prevent it, and the run halts with no blank cell left in the array.
\<close>

theorem buffer_can_fill:
  "mill_parse_program iswspace_C (wstr ''INIT a A a L\<newline>A _ HALT b R'') = Inr fill_prog
   \<and> length (replicate 1048575 (97 :: wchar)) = MILL_TAPE_SIZE - 1
   \<and> mill_read_tape (replicate 1048575 97) Tape_zero = Inr full_line_tape
   \<and> has_blank full_line_tape
   \<and> mill_run fill_prog full_line_tape = (Halted, filled_tape, 2)
   \<and> \<not> has_blank filled_tape
   \<and> nonblank_cells filled_tape = MILL_TAPE_SIZE"
proof -
  have "has_blank full_line_tape"
    using mill_read_tape_nonblank [OF fill_read] by simp
  then show ?thesis
    by (simp add: fill_parse fill_read fill_run filled_tape_full filled_tape_cells
          MILL_TAPE_SIZE_def)
qed

theorem written_region_bound_witness:
  "mill_read_tape (wstr ''a'') Tape_zero = Inr tape_a
   \<and> length (wstr ''a'') \<le> 48575
   \<and> tape_size tape_a = MILL_TAPE_SIZE \<and> pos tape_a < MILL_TAPE_SIZE
   \<and> nonblank_cells tape_a \<le> 1 \<and> has_blank tape_a
   \<and> mill_run scenario1_prog tape_a = (Halted, scenario1_final, 1)
   \<and> nonblank_cells scenario1_final \<le> nonblank_cells tape_a + 1
   \<and> has_blank scenario1_final"
proof -
  note t = written_region_bound [of "wstr ''a''" tape_a scenario1_prog]
  have len: "length (wstr ''a'') \<le> 48575" by (simp add: wstr_def)
  have ok: "tape_size tape_a = MILL_TAPE_SIZE \<and> pos tape_a < MILL_TAPE_SIZE"
    by (simp add: tape_a_def Tape_zero_def MILL_TAPE_SIZE_def)
  note t1 = t [THEN conjunct1, THEN mp, OF read_tape_a]
  from t1 [THEN conjunct1] have nb: "nonblank_cells tape_a \<le> 1" by (simp add: wstr_def)
  note hb = t1 [THEN conjunct2, THEN conjunct1]
  from t [THEN conjunct2, THEN conjunct1, THEN mp, OF ok, THEN conjunct2, THEN spec, THEN spec,
      THEN spec, THEN mp, OF scenario1_run, THEN conjunct2, THEN conjunct1]
  have c: "nonblank_cells scenario1_final \<le> nonblank_cells tape_a + 1" .
  from t [THEN conjunct2, THEN conjunct2, THEN mp, OF conjI [OF read_tape_a len],
      THEN conjunct2, THEN spec, THEN spec, THEN spec, THEN mp, OF scenario1_run]
  have hf: "has_blank scenario1_final" .
  from read_tape_a len ok nb hb scenario1_run c hf show ?thesis by simp
qed

end
